theory Spec2Isabelle
  imports Complex_Main "HOL-Library.AList"
begin

section \<open>Product records and Python truthiness\<close>

text \<open>
  Both source files build one dictionary per rendered product with the same seven keys
  (\<^verbatim>\<open>product_data\<close> in \<^verbatim>\<open>extract_page_products\<close>). Every value is a string or
  \<^verbatim>\<open>None\<close>, so each field is a \<^typ>\<open>string option\<close>.
\<close>

record product =
  name :: "string option"
  price :: "string option"
  unit_price :: "string option"
  ean :: "string option"
  nutriscore :: "string option"
  promo :: "string option"
  url :: "string option"

text \<open>
  Python's truth value of a string-or-None, as used by \<^verbatim>\<open>if url and ...\<close> and
  \<^verbatim>\<open>if u and ...\<close>: \<^verbatim>\<open>None\<close> and the empty string are false.
\<close>

fun truthy :: "string option \<Rightarrow> bool" where
  "truthy None = False"
| "truthy (Some s) = (s \<noteq> [])"

section \<open>Shard results and the merge step of \<^verbatim>\<open>main\<close> (main_cli_optimized.py)\<close>

text \<open>
  \<^verbatim>\<open>process_url_task\<close> returns a dictionary with the keys \<^verbatim>\<open>url\<close>, \<^verbatim>\<open>output\<close>,
  \<^verbatim>\<open>count\<close> and, when \<^verbatim>\<open>return_products\<close> is set, \<^verbatim>\<open>products\<close>. A missing
  \<^verbatim>\<open>products\<close> key is \<^term>\<open>None\<close>.
\<close>

record shard_result =
  res_url :: string
  res_output :: string
  res_count :: nat
  res_products :: "product list option"

text \<open>
  \<^verbatim>\<open>r.get('products', []) if r.get('products') else []\<close>: a missing, \<^verbatim>\<open>None\<close> or empty
  list gives the empty list.
\<close>

fun products_of :: "shard_result \<Rightarrow> product list" where
  "products_of r = (case res_products r of None \<Rightarrow> [] | Some ps \<Rightarrow> ps)"

text \<open>
  The inner loop of the merge (lines 404-408), on the pair \<^verbatim>\<open>(all_products, seen)\<close>:
  \<^verbatim>\<open>
    u = p.get('url')
    if u and u not in seen:
        seen.add(u)
        all_products.append(p)
  \<close>
\<close>

fun merge_products :: "product list \<Rightarrow> product list \<times> string set \<Rightarrow> product list \<times> string set" where
  "merge_products [] (all_products, seen) = (all_products, seen)"
| "merge_products (p # ps) (all_products, seen) =
     (case url p of
        None \<Rightarrow> merge_products ps (all_products, seen)
      | Some u \<Rightarrow>
          if u \<noteq> [] \<and> u \<notin> seen
          then merge_products ps (all_products @ [p], insert u seen)
          else merge_products ps (all_products, seen))"

text \<open>The outer loop \<^verbatim>\<open>for r in results\<close>, started from two empty collections.\<close>

definition merge_results :: "shard_result list \<Rightarrow> product list \<times> string set \<Rightarrow> product list \<times> string set" where
  "merge_results results st = fold (\<lambda>r acc. merge_products (products_of r) acc) results st"

definition merge_shards :: "shard_result list \<Rightarrow> product list" where
  "merge_shards results = fst (merge_results results ([], {}))"

text \<open>
  The specification the merge is compared with, in the words of the spec: keep a record
  when its identity key has not been seen, discard every later record with that key.
\<close>

fun first_seen :: "product list \<Rightarrow> product list" where
  "first_seen [] = []"
| "first_seen (p # ps) = p # first_seen (filter (\<lambda>q. url q \<noteq> url p) ps)"

definition usable :: "product \<Rightarrow> bool" where
  "usable p = truthy (url p)"

text \<open>All records that arrive at the merge, in arrival order.\<close>

definition arrived :: "shard_result list \<Rightarrow> product list" where
  "arrived results = concat (map products_of results)"

text \<open>A merged collection handed back to the merge as one outcome.\<close>

definition as_outcome :: "string \<Rightarrow> string \<Rightarrow> product list \<Rightarrow> shard_result" where
  "as_outcome u out ps = \<lparr>res_url = u, res_output = out, res_count = length ps, res_products = Some ps\<rparr>"

text \<open>A record the merge keeps when it arrives with the keys \<open>seen\<close>.\<close>

definition fresh :: "string set \<Rightarrow> product \<Rightarrow> bool" where
  "fresh seen p = (case url p of None \<Rightarrow> False | Some u \<Rightarrow> u \<noteq> [] \<and> u \<notin> seen)"

section \<open>The page as the scraper sees it\<close>

text \<open>
  The Playwright page is outside the program: what it answers, and when, is not decided
  by the scraper. It is modelled as a state machine of an arbitrary state type \<open>'p\<close>;
  every call the scraper makes is one operation that returns an answer and the next
  state of the page. Every theorem below holds for all such pages.

  An operation either returns or raises. The exceptions are those the source catches
  with \<^verbatim>\<open>except Exception\<close>: instances of \<^verbatim>\<open>Exception\<close> (Playwright's errors and
  timeouts), carrying a message. An element handle is a number.
\<close>

datatype exn = Error string
type_synonym handle = nat

text \<open>
  The log records every call made, with its answer, in the order of the calls. It is
  what statements such as "no loading action is invoked" or "the strategies are tried
  in this order" are about. \<^verbatim>\<open>pbar.update(1)\<close> is logged too: it marks the start of an
  iteration of the attempt loop.
\<close>

datatype event =
    Time_time rat
  | Locator_count "exn + int"
  | Query_selector string "exn + handle option"
  | Is_enabled handle "exn + bool"
  | Is_visible handle "exn + bool"
  | Click handle "exn + unit"
  | Wait_for_load_state int "exn + unit"
  | Wait_for_timeout int "exn + unit"
  | Evaluate string "exn + unit"
  | Query_selector_all "exn + handle list"
  | Product_data handle "exn + product"
  | Pbar_update
  | Goto string "exn + unit"
  | Page_click string "exn + unit"
  | Wait_for_selector string "exn + unit"
  | Browser_close "exn + unit"

text \<open>
  The operations, named after the calls in the source:
  \<^item> \<^verbatim>\<open>time.time()\<close>, in seconds; a rational number stands for the float;
  \<^item> \<^verbatim>\<open>page.locator('li.product-list-grid__item').count()\<close>;
  \<^item> \<^verbatim>\<open>page.query_selector(sel)\<close>, which returns an element handle or \<^verbatim>\<open>None\<close>;
  \<^item> \<^verbatim>\<open>is_enabled()\<close>, \<^verbatim>\<open>is_visible()\<close> and \<^verbatim>\<open>click()\<close> of an element handle;
  \<^item> \<^verbatim>\<open>page.wait_for_load_state("networkidle", timeout=...)\<close>, \<^verbatim>\<open>page.wait_for_timeout(ms)\<close>,
    \<^verbatim>\<open>page.evaluate(script)\<close>;
  \<^item> \<^verbatim>\<open>page.query_selector_all('li.product-list-grid__item')\<close>, the item listing;
  \<^item> the construction of the dictionary \<^verbatim>\<open>product_data\<close> from one item, that is the seven
    field extractors \<^verbatim>\<open>safe_extract\<close>, \<^verbatim>\<open>extract_price\<close>, \<^verbatim>\<open>extract_ean\<close>,
    \<^verbatim>\<open>extract_nutriscore\<close>, \<^verbatim>\<open>extract_promo\<close> and \<^verbatim>\<open>extract_product_url\<close> taken together:
    they only read the rendered item; the value of \<^verbatim>\<open>url\<close> is \<^verbatim>\<open>None\<close> when the item has no
    product link. The model lets this step raise, which the source allows for with the
    \<^verbatim>\<open>try\<close> around it;
  \<^item> for \<^verbatim>\<open>run\<close>: \<^verbatim>\<open>page.goto(url, ...)\<close>, \<^verbatim>\<open>page.click(selector, timeout=...)\<close>,
    \<^verbatim>\<open>page.wait_for_selector(selector, timeout=...)\<close> and \<^verbatim>\<open>browser.close()\<close>.
\<close>

record 'p page_ops =
  time_time :: "'p \<Rightarrow> rat"
  locator_count :: "'p \<Rightarrow> (exn + int) \<times> 'p"
  query_selector :: "string \<Rightarrow> 'p \<Rightarrow> (exn + handle option) \<times> 'p"
  is_enabled :: "handle \<Rightarrow> 'p \<Rightarrow> (exn + bool) \<times> 'p"
  is_visible :: "handle \<Rightarrow> 'p \<Rightarrow> (exn + bool) \<times> 'p"
  click :: "handle \<Rightarrow> 'p \<Rightarrow> (exn + unit) \<times> 'p"
  wait_for_load_state :: "int \<Rightarrow> 'p \<Rightarrow> (exn + unit) \<times> 'p"
  wait_for_timeout :: "int \<Rightarrow> 'p \<Rightarrow> (exn + unit) \<times> 'p"
  evaluate :: "string \<Rightarrow> 'p \<Rightarrow> (exn + unit) \<times> 'p"
  query_selector_all :: "'p \<Rightarrow> (exn + handle list) \<times> 'p"
  product_data :: "handle \<Rightarrow> 'p \<Rightarrow> (exn + product) \<times> 'p"
  goto :: "string \<Rightarrow> int \<Rightarrow> 'p \<Rightarrow> (exn + unit) \<times> 'p"
  page_click :: "string \<Rightarrow> int \<Rightarrow> 'p \<Rightarrow> (exn + unit) \<times> 'p"
  wait_for_selector :: "string \<Rightarrow> int \<Rightarrow> 'p \<Rightarrow> (exn + unit) \<times> 'p"
  browser_close :: "'p \<Rightarrow> (exn + unit) \<times> 'p"

text \<open>
  The state of a run: the page, the log, and the fields \<^verbatim>\<open>self.products\<close> and
  \<^verbatim>\<open>self.seen_urls\<close> of \<^verbatim>\<open>CarrefourScraperCLI\<close> (main_cli.py has no \<^verbatim>\<open>seen_urls\<close> and never
  touches it).
\<close>

record 'p scraper =
  page :: 'p
  log :: "event list"
  products :: "product list"
  seen_urls :: "string set"

text \<open>\<^verbatim>\<open>self.config\<close>.\<close>

record config =
  timeout :: int
  headless :: bool
  user_agent :: string
  max_load_attempts :: int

text \<open>One call: the page answers and moves on, the call and its answer are logged.\<close>

definition perform :: "('p \<Rightarrow> 'r \<times> 'p) \<Rightarrow> ('r \<Rightarrow> event) \<Rightarrow> 'p scraper \<Rightarrow> 'r \<times> 'p scraper" where
  "perform f ev s = (case f (page s) of (r, p') \<Rightarrow> (r, s\<lparr>page := p', log := log s @ [ev r]\<rparr>))"

section \<open>\<^verbatim>\<open>extract_all_products\<close>\<close>

text \<open>The selector lists and the scroll script, as in both source files.\<close>

definition load_more_selectors :: "string list" where
  "load_more_selectors =
     [''button[aria-label=\"Afficher les produits suivants\"]'',
      ''button:has-text(\"Afficher les produits suivants\")'',
      ''button:has-text(\"Voir plus\")'',
      ''button:has-text(\"Afficher plus\")'']"

definition next_selectors :: "string list" where
  "next_selectors =
     [''a[rel=\"next\"]'',
      ''a[aria-label=\"Page suivante\"]'',
      ''button[aria-label=\"Page suivante\"]'',
      ''a:has-text(\"Suivant\")'',
      ''button:has-text(\"Suivant\")'']"

definition scroll_script :: string where
  "scroll_script = ''window.scrollTo(0, document.body.scrollHeight)''"


subsection \<open>The nested functions \<^verbatim>\<open>products_count\<close> and \<^verbatim>\<open>wait_for_increase\<close>\<close>

text \<open>
  \<^verbatim>\<open>
  def products_count():
      try:
          return page.locator('li.product-list-grid__item').count()
      except Exception:
          return 0
  \<close>
\<close>

definition read_clock :: "'p page_ops \<Rightarrow> 'p scraper \<Rightarrow> rat \<times> 'p scraper" where
  "read_clock ops s = perform (\<lambda>p. (time_time ops p, p)) Time_time s"

definition products_count :: "'p page_ops \<Rightarrow> 'p scraper \<Rightarrow> int \<times> 'p scraper" where
  "products_count ops s =
     (case perform (locator_count ops) Locator_count s of
        (Inl e, s') \<Rightarrow> (0, s')
      | (Inr n, s') \<Rightarrow> (n, s'))"

text \<open>
  \<^verbatim>\<open>
  def wait_for_increase(prev_count, timeout_ms=15000, poll_ms=300):
      start = time.time()
      while (time.time() - start) * 1000 < timeout_ms:
          new_count = products_count()
          if new_count > prev_count:
              return True
          page.wait_for_timeout(poll_ms)
      return False
  \<close>
  Nothing in the program bounds the number of rounds of this loop: it ends only if the
  clock advances. It is therefore a partial function, \<^term>\<open>None\<close> standing for a run
  that does not return. An exception of \<^verbatim>\<open>page.wait_for_timeout\<close> leaves the function.
\<close>

partial_function (option) wait_loop ::
  "'p page_ops \<Rightarrow> int \<Rightarrow> int \<Rightarrow> int \<Rightarrow> rat \<Rightarrow> 'p scraper \<Rightarrow> ((exn + bool) \<times> 'p scraper) option" where
  "wait_loop ops prev_count timeout_ms poll_ms start s =
     (case read_clock ops s of (t, s1) \<Rightarrow>
        if (t - start) * 1000 < of_int timeout_ms then
          (case products_count ops s1 of (new_count, s2) \<Rightarrow>
             if new_count > prev_count then Some (Inr True, s2)
             else (case perform (wait_for_timeout ops poll_ms) (Wait_for_timeout poll_ms) s2 of
                     (Inl e, s3) \<Rightarrow> Some (Inl e, s3)
                   | (Inr u, s3) \<Rightarrow> wait_loop ops prev_count timeout_ms poll_ms start s3))
        else Some (Inr False, s1))"

declare wait_loop.simps [code]

definition wait_for_increase ::
  "'p page_ops \<Rightarrow> int \<Rightarrow> int \<Rightarrow> int \<Rightarrow> 'p scraper \<Rightarrow> ((exn + bool) \<times> 'p scraper) option" where
  "wait_for_increase ops prev_count timeout_ms poll_ms s =
     (case read_clock ops s of (start, s0) \<Rightarrow>
        wait_loop ops prev_count timeout_ms poll_ms start s0)"

subsection \<open>\<^verbatim>\<open>extract_page_products\<close>, in its two versions\<close>

text \<open>
  main_cli.py:
  \<^verbatim>\<open>
  def extract_page_products(self, page):
      products = page.query_selector_all('li.product-list-grid__item')
      for product in products:
          try:
              product_data = {...}
              if not any(p.get('url') == product_data.get('url') for p in self.products):
                  self.products.append(product_data)
          except:
              continue
  \<close>
  The listing query stands outside the \<^verbatim>\<open>try\<close>: its exception leaves the function.
\<close>

fun extract_items_original :: "'p page_ops \<Rightarrow> handle list \<Rightarrow> 'p scraper \<Rightarrow> 'p scraper" where
  "extract_items_original ops [] s = s"
| "extract_items_original ops (product # rest) s =
     (case perform (product_data ops product) (Product_data product) s of
        (Inl e, s1) \<Rightarrow> extract_items_original ops rest s1
      | (Inr pd, s1) \<Rightarrow>
          if \<not> list_ex (\<lambda>p. url p = url pd) (products s1)
          then extract_items_original ops rest (s1\<lparr>products := products s1 @ [pd]\<rparr>)
          else extract_items_original ops rest s1)"

definition extract_page_products_original ::
  "'p page_ops \<Rightarrow> 'p scraper \<Rightarrow> (exn + unit) \<times> 'p scraper" where
  "extract_page_products_original ops s =
     (case perform (query_selector_all ops) Query_selector_all s of
        (Inl e, s1) \<Rightarrow> (Inl e, s1)
      | (Inr items, s1) \<Rightarrow> (Inr (), extract_items_original ops items s1))"

text \<open>
  main_cli_optimized.py:
  \<^verbatim>\<open>
  def extract_page_products(self, page, start_index=0):
      products = page.query_selector_all('li.product-list-grid__item')
      if start_index > 0:
          products = products[start_index:]
      for product in products:
          try:
              product_data = {...}
              url = product_data.get('url')
              if url and url not in self.seen_urls:
                  self.products.append(product_data)
                  self.seen_urls.add(url)
          except:
              continue
  \<close>
\<close>

fun extract_items_optimized :: "'p page_ops \<Rightarrow> handle list \<Rightarrow> 'p scraper \<Rightarrow> 'p scraper" where
  "extract_items_optimized ops [] s = s"
| "extract_items_optimized ops (product # rest) s =
     (case perform (product_data ops product) (Product_data product) s of
        (Inl e, s1) \<Rightarrow> extract_items_optimized ops rest s1
      | (Inr pd, s1) \<Rightarrow>
          (case url pd of
             None \<Rightarrow> extract_items_optimized ops rest s1
           | Some u \<Rightarrow>
               if u \<noteq> [] \<and> u \<notin> seen_urls s1
               then extract_items_optimized ops rest
                      (s1\<lparr>products := products s1 @ [pd], seen_urls := insert u (seen_urls s1)\<rparr>)
               else extract_items_optimized ops rest s1))"

definition extract_page_products_optimized ::
  "'p page_ops \<Rightarrow> int \<Rightarrow> 'p scraper \<Rightarrow> (exn + unit) \<times> 'p scraper" where
  "extract_page_products_optimized ops start_index s =
     (case perform (query_selector_all ops) Query_selector_all s of
        (Inl e, s1) \<Rightarrow> (Inl e, s1)
      | (Inr items, s1) \<Rightarrow>
          (Inr (), extract_items_optimized ops
                     (if start_index > 0 then drop (nat start_index) items else items) s1))"

text \<open>
  The text of \<^verbatim>\<open>extract_all_products\<close> is the same in both files but for the calls of
  \<^verbatim>\<open>extract_page_products\<close>: main_cli.py calls \<^verbatim>\<open>self.extract_page_products(page)\<close>,
  main_cli_optimized.py passes \<^verbatim>\<open>start_index=0\<close> in the initial pass and
  \<^verbatim>\<open>start_index=prev\<close> afterwards. The variant says which file is meant.
\<close>

datatype variant = Original | Optimized

fun extract_page_products ::
  "variant \<Rightarrow> 'p page_ops \<Rightarrow> int \<Rightarrow> 'p scraper \<Rightarrow> (exn + unit) \<times> 'p scraper" where
  "extract_page_products Original ops start_index s = extract_page_products_original ops s"
| "extract_page_products Optimized ops start_index s = extract_page_products_optimized ops start_index s"

subsection \<open>The three strategies of one attempt\<close>

text \<open>
  The loop over a selector list, shared by the first two strategies:
  \<^verbatim>\<open>
  clicked = False
  for sel in load_more_selectors:
      btn = page.query_selector(sel)
      if btn and btn.is_enabled() and btn.is_visible():
          btn.click()
          clicked = True
          break
  \<close>
  The result is \<^verbatim>\<open>clicked\<close>, or the exception that one of the calls raised.
\<close>

fun click_first :: "'p page_ops \<Rightarrow> string list \<Rightarrow> 'p scraper \<Rightarrow> (exn + bool) \<times> 'p scraper" where
  "click_first ops [] s = (Inr False, s)"
| "click_first ops (sel # sels) s =
     (case perform (query_selector ops sel) (Query_selector sel) s of
        (Inl e, s1) \<Rightarrow> (Inl e, s1)
      | (Inr None, s1) \<Rightarrow> click_first ops sels s1
      | (Inr (Some btn), s1) \<Rightarrow>
          (case perform (is_enabled ops btn) (Is_enabled btn) s1 of
             (Inl e, s2) \<Rightarrow> (Inl e, s2)
           | (Inr False, s2) \<Rightarrow> click_first ops sels s2
           | (Inr True, s2) \<Rightarrow>
               (case perform (is_visible ops btn) (Is_visible btn) s2 of
                  (Inl e, s3) \<Rightarrow> (Inl e, s3)
                | (Inr False, s3) \<Rightarrow> click_first ops sels s3
                | (Inr True, s3) \<Rightarrow>
                    (case perform (click ops btn) (Click btn) s3 of
                       (Inl e, s4) \<Rightarrow> (Inl e, s4)
                     | (Inr u, s4) \<Rightarrow> (Inr True, s4)))))"

text \<open>
  What follows a click, inside the \<^verbatim>\<open>try\<close> of the strategy:
  \<^verbatim>\<open>
  if clicked:
      if wait_for_increase(prev):
          self.extract_page_products(page)    # start_index=prev in the optimized file
          continue
  \<close>
  The result \<^term>\<open>True\<close> is the \<^verbatim>\<open>continue\<close>. Every exception, also that of the listing
  query of the extraction pass, is caught by \<^verbatim>\<open>except Exception: pass\<close>, and the code
  after the \<^verbatim>\<open>try\<close> block, the next strategy, runs: the result is \<^term>\<open>False\<close>, as it
  is when the count did not increase.
\<close>

definition after_click ::
  "variant \<Rightarrow> 'p page_ops \<Rightarrow> int \<Rightarrow> 'p scraper \<Rightarrow> (bool \<times> 'p scraper) option" where
  "after_click v ops prev s =
     (case wait_for_increase ops prev 15000 300 s of
        None \<Rightarrow> None
      | Some (Inl e, s1) \<Rightarrow> Some (False, s1)
      | Some (Inr False, s1) \<Rightarrow> Some (False, s1)
      | Some (Inr True, s1) \<Rightarrow>
          (case extract_page_products v ops prev s1 of
             (Inl e, s2) \<Rightarrow> Some (False, s2)
           | (Inr u, s2) \<Rightarrow> Some (True, s2)))"

definition load_more_strategy ::
  "variant \<Rightarrow> 'p page_ops \<Rightarrow> int \<Rightarrow> 'p scraper \<Rightarrow> (bool \<times> 'p scraper) option" where
  "load_more_strategy v ops prev s =
     (case click_first ops load_more_selectors s of
        (Inl e, s1) \<Rightarrow> Some (False, s1)
      | (Inr False, s1) \<Rightarrow> Some (False, s1)
      | (Inr True, s1) \<Rightarrow> after_click v ops prev s1)"

text \<open>
  The second strategy also waits for the network to be idle after the click; an exception
  of that wait is ignored by a \<^verbatim>\<open>try\<close> of its own.
\<close>

definition next_page_strategy ::
  "variant \<Rightarrow> 'p page_ops \<Rightarrow> config \<Rightarrow> int \<Rightarrow> 'p scraper \<Rightarrow> (bool \<times> 'p scraper) option" where
  "next_page_strategy v ops cfg prev s =
     (case click_first ops next_selectors s of
        (Inl e, s1) \<Rightarrow> Some (False, s1)
      | (Inr False, s1) \<Rightarrow> Some (False, s1)
      | (Inr True, s1) \<Rightarrow>
          after_click v ops prev
            (snd (perform (wait_for_load_state ops (timeout cfg)) (Wait_for_load_state (timeout cfg)) s1)))"

text \<open>
  \<^verbatim>\<open>
  increased = False
  for _ in range(10):
      page.evaluate("window.scrollTo(0, document.body.scrollHeight)")
      page.wait_for_timeout(700)
      if products_count() > prev:
          increased = True
          prev = products_count()
      else:
          break
  if increased:
      self.extract_page_products(page)        # start_index=prev in the optimized file
      continue
  \<close>
  The loop returns \<^verbatim>\<open>increased\<close> and the final value of \<^verbatim>\<open>prev\<close>, which the optimized
  file passes on as \<^verbatim>\<open>start_index\<close>.
\<close>

fun scroll_loop ::
  "'p page_ops \<Rightarrow> nat \<Rightarrow> int \<Rightarrow> bool \<Rightarrow> 'p scraper \<Rightarrow> (exn + bool \<times> int) \<times> 'p scraper" where
  "scroll_loop ops 0 prev increased s = (Inr (increased, prev), s)"
| "scroll_loop ops (Suc n) prev increased s =
     (case perform (evaluate ops scroll_script) (Evaluate scroll_script) s of
        (Inl e, s1) \<Rightarrow> (Inl e, s1)
      | (Inr u, s1) \<Rightarrow>
          (case perform (wait_for_timeout ops 700) (Wait_for_timeout 700) s1 of
             (Inl e, s2) \<Rightarrow> (Inl e, s2)
           | (Inr u, s2) \<Rightarrow>
               (case products_count ops s2 of (c, s3) \<Rightarrow>
                  if c > prev
                  then (case products_count ops s3 of (c', s4) \<Rightarrow> scroll_loop ops n c' True s4)
                  else (Inr (increased, prev), s3))))"

definition scroll_strategy ::
  "variant \<Rightarrow> 'p page_ops \<Rightarrow> int \<Rightarrow> 'p scraper \<Rightarrow> bool \<times> 'p scraper" where
  "scroll_strategy v ops prev s =
     (case scroll_loop ops 10 prev False s of
        (Inl e, s1) \<Rightarrow> (False, s1)
      | (Inr (False, prev'), s1) \<Rightarrow> (False, s1)
      | (Inr (True, prev'), s1) \<Rightarrow>
          (case extract_page_products v ops prev' s1 of
             (Inl e, s2) \<Rightarrow> (False, s2)
           | (Inr u, s2) \<Rightarrow> (True, s2)))"

subsection \<open>The attempt loop\<close>

text \<open>
  One iteration, after the test \<^verbatim>\<open>attempts < max_attempts\<close> and \<^verbatim>\<open>attempts += 1\<close>:
  \<^verbatim>\<open>pbar.update(1)\<close>, \<^verbatim>\<open>prev = products_count()\<close>, then the three \<^verbatim>\<open>try\<close> blocks in
  turn. The result \<^term>\<open>True\<close> is a \<^verbatim>\<open>continue\<close>, \<^term>\<open>False\<close> the final \<^verbatim>\<open>break\<close>.
\<close>

definition pbar_update :: "'p scraper \<Rightarrow> 'p scraper" where
  "pbar_update s = s\<lparr>log := log s @ [Pbar_update]\<rparr>"

definition attempt ::
  "variant \<Rightarrow> 'p page_ops \<Rightarrow> config \<Rightarrow> 'p scraper \<Rightarrow> (bool \<times> 'p scraper) option" where
  "attempt v ops cfg s =
     (case products_count ops (pbar_update s) of (prev, s0) \<Rightarrow>
        (case load_more_strategy v ops prev s0 of
           None \<Rightarrow> None
         | Some (True, s1) \<Rightarrow> Some (True, s1)
         | Some (False, s1) \<Rightarrow>
             (case next_page_strategy v ops cfg prev s1 of
                None \<Rightarrow> None
              | Some (True, s2) \<Rightarrow> Some (True, s2)
              | Some (False, s2) \<Rightarrow> Some (scroll_strategy v ops prev s2))))"

text \<open>
  \<^verbatim>\<open>while attempts < max_attempts: attempts += 1; ...\<close>. The function returns the final
  value of the local variable \<^verbatim>\<open>attempts\<close> with the state.
\<close>

function attempt_loop ::
  "variant \<Rightarrow> 'p page_ops \<Rightarrow> config \<Rightarrow> int \<Rightarrow> int \<Rightarrow> 'p scraper \<Rightarrow> (int \<times> 'p scraper) option" where
  "attempt_loop v ops cfg max_attempts attempts s =
     (if attempts < max_attempts then
        (case attempt v ops cfg s of
           None \<Rightarrow> None
         | Some (True, s') \<Rightarrow> attempt_loop v ops cfg max_attempts (attempts + 1) s'
         | Some (False, s') \<Rightarrow> Some (attempts + 1, s'))
      else Some (attempts, s))"
  by pat_completeness auto
termination
  by (relation "measure (\<lambda>(v, ops, cfg, max_attempts, attempts, s). nat (max_attempts - attempts))") auto

declare attempt_loop.simps [simp del]

text \<open>
  \<^verbatim>\<open>extract_all_products\<close>: the initial pass, whose exception is not caught, then the
  loop from \<^verbatim>\<open>attempts = 0\<close>.
\<close>

definition extract_all_products ::
  "variant \<Rightarrow> 'p page_ops \<Rightarrow> config \<Rightarrow> 'p scraper \<Rightarrow> ((exn + int) \<times> 'p scraper) option" where
  "extract_all_products v ops cfg s =
     (case extract_page_products v ops 0 s of
        (Inl e, s1) \<Rightarrow> Some (Inl e, s1)
      | (Inr u, s1) \<Rightarrow>
          (case attempt_loop v ops cfg (max_load_attempts cfg) 0 s1 of
             None \<Rightarrow> None
           | Some (attempts, s2) \<Rightarrow> Some (Inr attempts, s2)))"

section \<open>\<^verbatim>\<open>run\<close> of main_cli_optimized.py\<close>

text \<open>
  \<^verbatim>\<open>
  def handle_cookies(self, page):
      try:
          page.click('#onetrust-reject-all-handler', timeout=3000)
          page.wait_for_timeout(1000)
      except:
          pass
  \<close>
\<close>

definition handle_cookies :: "'p page_ops \<Rightarrow> 'p scraper \<Rightarrow> 'p scraper" where
  "handle_cookies ops s =
     (case perform (page_click ops ''#onetrust-reject-all-handler'' 3000)
             (Page_click ''#onetrust-reject-all-handler'') s of
        (Inl e, s1) \<Rightarrow> s1
      | (Inr u, s1) \<Rightarrow> snd (perform (wait_for_timeout ops 1000) (Wait_for_timeout 1000) s1))"

definition item_selector :: string where
  "item_selector = ''li.product-list-grid__item''"

definition close_browser :: "'p page_ops \<Rightarrow> 'p scraper \<Rightarrow> (exn + unit) \<times> 'p scraper" where
  "close_browser ops s = perform (browser_close ops) Browser_close s"

text \<open>
  \<^verbatim>\<open>run\<close> from the navigation on (starting the browser comes before, writing the results
  after):
  \<^verbatim>\<open>
  page.goto(url, wait_until="networkidle", timeout=self.config['timeout'])
  self.handle_cookies(page)
  try:
      page.wait_for_selector('li.product-list-grid__item', timeout=10000)
  except Exception:
      pass
  if single_page_only:
      self.extract_page_products(page, start_index=0)
  else:
      self.extract_all_products(page)
  browser.close()
  \<close>
\<close>

definition run ::
  "'p page_ops \<Rightarrow> config \<Rightarrow> string \<Rightarrow> bool \<Rightarrow> 'p scraper \<Rightarrow> ((exn + unit) \<times> 'p scraper) option" where
  "run ops cfg target single_page_only s =
     (case perform (goto ops target (timeout cfg)) (Goto target) s of
        (Inl e, s1) \<Rightarrow> Some (Inl e, s1)
      | (Inr u, s1) \<Rightarrow>
          (case perform (wait_for_selector ops item_selector 10000) (Wait_for_selector item_selector)
                  (handle_cookies ops s1) of
             (r, s2) \<Rightarrow>
               if single_page_only then
                 (case extract_page_products_optimized ops 0 s2 of
                    (Inl e, s3) \<Rightarrow> Some (Inl e, s3)
                  | (Inr u, s3) \<Rightarrow> Some (close_browser ops s3))
               else
                 (case extract_all_products Optimized ops cfg s2 of
                    None \<Rightarrow> None
                  | Some (Inl e, s3) \<Rightarrow> Some (Inl e, s3)
                  | Some (Inr n, s3) \<Rightarrow> Some (close_browser ops s3))))"

section \<open>Shard planning: \<^verbatim>\<open>build_page_url\<close> and the shard list of \<^verbatim>\<open>main\<close>\<close>












subsection \<open>A plain stand-in for \<^verbatim>\<open>urllib.parse\<close>, to run the code on concrete URLs\<close>








section \<open>A simulated listing page, to run the scraper on concrete inputs\<close>

text \<open>
  The page holds the materialized items (an element handle is the item's index) and the
  batches that a working load action materializes next. One control can be present
  (enabled and visible, handle 1000) under a given selector. Every wait of \<open>ms\<close>
  milliseconds takes \<open>ms\<close> milliseconds plus a whole number of seconds of lag.
\<close>

record sim =
  sim_clock :: rat
  sim_items :: "product list"
  sim_batches :: "product list list"
  sim_control :: "string option"
  sim_click_loads :: bool
  sim_scroll_loads :: bool
  sim_listing_fails :: bool
  sim_lag :: nat

definition load_next :: "sim \<Rightarrow> sim" where
  "load_next w =
     (case sim_batches w of
        [] \<Rightarrow> w
      | b # bs \<Rightarrow> w\<lparr>sim_items := sim_items w @ b, sim_batches := bs\<rparr>)"

definition sim_ops :: "sim page_ops" where
  "sim_ops =
     \<lparr>time_time = sim_clock,
      locator_count = (\<lambda>w. (Inr (int (length (sim_items w))), w)),
      query_selector = (\<lambda>sel w. (Inr (if sim_control w = Some sel then Some 1000 else None), w)),
      is_enabled = (\<lambda>h w. (Inr True, w)),
      is_visible = (\<lambda>h w. (Inr True, w)),
      click = (\<lambda>h w. (Inr (), if sim_click_loads w then load_next w else w)),
      wait_for_load_state = (\<lambda>t w. (Inr (), w)),
      wait_for_timeout =
        (\<lambda>ms w. (Inr (), w\<lparr>sim_clock := sim_clock w + of_int ms / 1000 + of_nat (sim_lag w)\<rparr>)),
      evaluate = (\<lambda>js w. (Inr (), if sim_scroll_loads w then load_next w else w)),
      query_selector_all =
        (\<lambda>w. (if sim_listing_fails w then Inl (Error ''Execution context was destroyed'')
              else Inr [0..<length (sim_items w)], w)),
      product_data =
        (\<lambda>h w. (if h < length (sim_items w) then Inr (sim_items w ! h)
                else Inl (Error ''Element is not attached''), w)),
      goto = (\<lambda>target t w. (Inr (), w)),
      page_click = (\<lambda>sel t w. (Inl (Error ''Timeout 3000ms exceeded''), w)),
      wait_for_selector = (\<lambda>sel t w. (Inr (), w)),
      browser_close = (\<lambda>w. (Inr (), w))\<rparr>"

definition item :: "string \<Rightarrow> string option \<Rightarrow> product" where
  "item n u = \<lparr>name = Some n, price = None, unit_price = None, ean = None,
               nutriscore = None, promo = None, url = u\<rparr>"

definition fresh_scraper :: "'p \<Rightarrow> 'p scraper" where
  "fresh_scraper p = \<lparr>page = p, log = [], products = [], seen_urls = {}\<rparr>"

definition default_config :: config where
  "default_config =
     \<lparr>timeout = 30000, headless = True,
      user_agent = ''Mozilla/5.0 (Windows NT 10.0; Win64; x64) AppleWebKit/537.36 (KHTML, like Gecko) Chrome/91.0.4472.124 Safari/537.36'',
      max_load_attempts = 20\<rparr>"

text \<open>A page with one item whose product link cannot be resolved.\<close>

definition page_without_link :: sim where
  "page_without_link =
     \<lparr>sim_clock = 0, sim_items = [item ''Lait'' None], sim_batches = [],
      sim_control = None, sim_click_loads = False, sim_scroll_loads = False,
      sim_listing_fails = False, sim_lag = 0\<rparr>"

text \<open>An infinite-scroll page: one item is materialized, scrolling materializes one more.\<close>

definition scroll_page :: sim where
  "scroll_page =
     \<lparr>sim_clock = 0, sim_items = [item ''Lait'' (Some ''https://www.carrefour.fr/p/lait-1'')],
      sim_batches = [[item ''Beurre'' (Some ''https://www.carrefour.fr/p/beurre-2'')]],
      sim_control = None, sim_click_loads = False, sim_scroll_loads = True,
      sim_listing_fails = False, sim_lag = 0\<rparr>"



text \<open>A load-more page: the button materializes the next batch.\<close>

definition load_more_page :: sim where
  "load_more_page =
     scroll_page\<lparr>sim_control := Some ''button:has-text(\"Voir plus\")'', sim_click_loads := True,
                 sim_scroll_loads := False, sim_lag := 15\<rparr>"

section \<open>Vocabulary for statements about the event log\<close>

text \<open>The events a run appends to the log between two states.\<close>

definition emits :: "'p scraper \<Rightarrow> 'p scraper \<Rightarrow> event list \<Rightarrow> bool" where
  "emits s s' es = (log s' = log s @ es)"

text \<open>The count \<^verbatim>\<open>products_count\<close> reports for an answer of the page.\<close>

fun count_of :: "exn + int \<Rightarrow> int" where
  "count_of (Inl e) = 0"
| "count_of (Inr n) = n"

text \<open>
  The shape of the events of one run of the polling loop of \<^verbatim>\<open>wait_for_increase\<close>,
  with its result: every round reads the clock; before the timeout it polls the count;
  a larger count ends the loop with \<^verbatim>\<open>True\<close>, otherwise the loop waits, and a wait that
  raises ends it with that exception; a clock reading at or after the timeout ends it
  with \<^verbatim>\<open>False\<close>.
\<close>

inductive poll_trace :: "int \<Rightarrow> int \<Rightarrow> int \<Rightarrow> rat \<Rightarrow> event list \<Rightarrow> exn + bool \<Rightarrow> bool"
  for prev :: int and timeout_ms :: int and poll_ms :: int and start :: rat where
  timed_out:
    "\<not> (t - start) * 1000 < of_int timeout_ms \<Longrightarrow>
     poll_trace prev timeout_ms poll_ms start [Time_time t] (Inr False)"
| increased:
    "(t - start) * 1000 < of_int timeout_ms \<Longrightarrow> prev < count_of r \<Longrightarrow>
     poll_trace prev timeout_ms poll_ms start [Time_time t, Locator_count r] (Inr True)"
| wait_raised:
    "(t - start) * 1000 < of_int timeout_ms \<Longrightarrow> \<not> prev < count_of r \<Longrightarrow>
     poll_trace prev timeout_ms poll_ms start
       [Time_time t, Locator_count r, Wait_for_timeout poll_ms (Inl e)] (Inl e)"
| again:
    "(t - start) * 1000 < of_int timeout_ms \<Longrightarrow> \<not> prev < count_of r \<Longrightarrow>
     poll_trace prev timeout_ms poll_ms start es res \<Longrightarrow>
     poll_trace prev timeout_ms poll_ms start
       (Time_time t # Locator_count r # Wait_for_timeout poll_ms (Inr ()) # es) res"

text \<open>
  Every count in a list of events is read right after a clock reading that is still
  before the timeout. The flag tells whether the event before the list is such a
  reading.
\<close>

fun is_count :: "event \<Rightarrow> bool" where
  "is_count (Locator_count r) = True"
| "is_count e = False"

fun before_timeout :: "rat \<Rightarrow> int \<Rightarrow> event \<Rightarrow> bool" where
  "before_timeout start timeout_ms (Time_time t) = ((t - start) * 1000 < of_int timeout_ms)"
| "before_timeout start timeout_ms e = False"

fun polls_after :: "rat \<Rightarrow> int \<Rightarrow> bool \<Rightarrow> event list \<Rightarrow> bool" where
  "polls_after start timeout_ms ok [] = True"
| "polls_after start timeout_ms ok (e # es) =
     ((if is_count e then ok else True) \<and>
      polls_after start timeout_ms (before_timeout start timeout_ms e) es)"

definition polls_in_time :: "rat \<Rightarrow> int \<Rightarrow> event list \<Rightarrow> bool" where
  "polls_in_time start timeout_ms es = polls_after start timeout_ms False es"

text \<open>Events that only observe the page: clock readings, counts and waits.\<close>

fun observation :: "event \<Rightarrow> bool" where
  "observation (Time_time t) = True"
| "observation (Locator_count r) = True"
| "observation (Wait_for_timeout ms r) = True"
| "observation e = False"

text \<open>
  The assumption about time under which the polling loop ends: the clock does not go
  back while the count is read, and a wait of \<open>ms\<close> milliseconds that returns takes at
  least \<open>ms\<close> milliseconds.
\<close>

definition clock_ok :: "'p page_ops \<Rightarrow> bool" where
  "clock_ok ops =
     ((\<forall>p. time_time ops p \<le> time_time ops (snd (locator_count ops p))) \<and>
      (\<forall>ms p p'. wait_for_timeout ops ms p = (Inr (), p') \<longrightarrow>
         time_time ops p + of_int ms / 1000 \<le> time_time ops p'))"

text \<open>The three loading strategies and the events each of them can emit.\<close>

datatype strategy = Load_more | Next_page | Scroll

fun belongs :: "strategy \<Rightarrow> event \<Rightarrow> bool" where
  "belongs st (Query_selector sel r) =
     (st = Load_more \<and> sel \<in> set load_more_selectors \<or> st = Next_page \<and> sel \<in> set next_selectors)"
| "belongs st (Is_enabled h r) = (st \<noteq> Scroll)"
| "belongs st (Is_visible h r) = (st \<noteq> Scroll)"
| "belongs st (Click h r) = (st \<noteq> Scroll)"
| "belongs st (Wait_for_load_state t r) = (st = Next_page)"
| "belongs st (Time_time t) = (st \<noteq> Scroll)"
| "belongs st (Wait_for_timeout ms r) = (if st = Scroll then ms = 700 else ms = 300)"
| "belongs st (Evaluate js r) = (st = Scroll \<and> js = scroll_script)"
| "belongs st (Locator_count r) = True"
| "belongs st (Query_selector_all r) = True"
| "belongs st (Product_data h r) = True"
| "belongs st e = False"

text \<open>An extraction pass ran: the item listing query returned.\<close>

fun is_listing :: "event \<Rightarrow> bool" where
  "is_listing (Query_selector_all (Inr items)) = True"
| "is_listing e = False"

definition extracted :: "event list \<Rightarrow> bool" where
  "extracted es = list_ex is_listing es"

text \<open>Counting attempts (progress-bar updates) and scroll steps in a list of events.\<close>

fun is_scroll :: "event \<Rightarrow> bool" where
  "is_scroll (Evaluate js r) = True"
| "is_scroll e = False"

definition scroll_steps :: "event list \<Rightarrow> nat" where
  "scroll_steps es = length (filter is_scroll es)"

definition updates :: "event list \<Rightarrow> nat" where
  "updates es = length (filter (\<lambda>e. e = Pbar_update) es)"

text \<open>
  Events that load more content or belong to the attempt loop: control queries, clicks
  on a control, scrolling, the waits and counts of an attempt.
\<close>

fun loading_event :: "event \<Rightarrow> bool" where
  "loading_event (Query_selector sel r) = True"
| "loading_event (Is_enabled h r) = True"
| "loading_event (Is_visible h r) = True"
| "loading_event (Click h r) = True"
| "loading_event (Evaluate js r) = True"
| "loading_event (Wait_for_load_state t r) = True"
| "loading_event (Locator_count r) = True"
| "loading_event (Time_time t) = True"
| "loading_event Pbar_update = True"
| "loading_event e = False"

text \<open>
  A run from \<open>s\<close> to \<open>s'\<close> emits only events of strategy \<open>st\<close>, and \<open>c\<close> tells whether
  an extraction pass ran in it.
\<close>

definition phase_run :: "strategy \<Rightarrow> bool \<Rightarrow> 'p scraper \<Rightarrow> 'p scraper \<Rightarrow> bool" where
  "phase_run st c s s' = (\<exists>es. emits s s' es \<and> list_all (belongs st) es \<and> c = extracted es)"

text \<open>An item listing query, whatever its outcome, and a record extraction.\<close>

fun is_listing_call :: "event \<Rightarrow> bool" where
  "is_listing_call (Query_selector_all r) = True"
| "is_listing_call e = False"

fun is_product_data :: "event \<Rightarrow> bool" where
  "is_product_data (Product_data h r) = True"
| "is_product_data e = False"

text \<open>
  The element handles a list of events extracts records from, and the handles its
  successful listing queries returned.
\<close>

fun event_handle :: "event \<Rightarrow> handle list" where
  "event_handle (Product_data h r) = [h]"
| "event_handle e = []"

fun event_listed :: "event \<Rightarrow> handle list" where
  "event_listed (Query_selector_all (Inr items)) = items"
| "event_listed e = []"

definition handles_of :: "event list \<Rightarrow> handle list" where
  "handles_of es = concat (map event_handle es)"

definition listed :: "event list \<Rightarrow> handle list" where
  "listed es = concat (map event_listed es)"

section \<open>Comparing the two extractors\<close>

text \<open>
  A state of the original and a state of the optimized scraper agree when they look at
  the same page, the optimized one has collected exactly the records with a usable URL
  that the original has collected, in the same order, and \<^verbatim>\<open>seen_urls\<close> holds the URLs
  of these records.
\<close>

definition agree :: "'p scraper \<Rightarrow> 'p scraper \<Rightarrow> bool" where
  "agree so sp =
     (page so = page sp \<and> filter usable (products so) = products sp \<and>
      seen_urls sp = set (List.map_filter url (products sp)))"

section \<open>Properties of the merge\<close>

lemma set_first_seen_subset: "set (first_seen ps) \<subseteq> set ps"
  by (induction ps rule: first_seen.induct) auto

lemma url_set_first_seen: "url ` set (first_seen ps) = url ` set ps"
proof (induction ps rule: first_seen.induct)
  case 1
  show ?case by simp
next
  case (2 p ps)
  have "url ` set (filter (\<lambda>q. url q \<noteq> url p) ps) = url ` set ps - {url p}"
    by auto
  with 2 show ?case by auto
qed

lemma distinct_first_seen: "distinct (map url (first_seen ps))"
proof (induction ps rule: first_seen.induct)
  case 1
  show ?case by simp
next
  case (2 p ps)
  have "url p \<notin> url ` set (first_seen (filter (\<lambda>q. url q \<noteq> url p) ps))"
    unfolding url_set_first_seen by auto
  with 2 show ?case by simp
qed

lemma first_seen_distinct_id: "distinct (map url ps) \<Longrightarrow> first_seen ps = ps"
proof (induction ps)
  case Nil
  show ?case by simp
next
  case (Cons p ps)
  from Cons.prems have "\<forall>q\<in>set ps. url q \<noteq> url p"
    by (metis distinct.simps(2) image_eqI list.simps(9) set_map)
  then have "filter (\<lambda>q. url q \<noteq> url p) ps = ps"
    by (rule filter_True)
  with Cons show ?case by simp
qed

lemma filter_first_seen: "filter P (first_seen (filter P ps)) = first_seen (filter P ps)"
  using set_first_seen_subset [of "filter P ps"] by (auto intro!: filter_True)

lemma fresh_empty: "fresh {} p = usable p"
  by (cases "url p") (simp_all add: fresh_def usable_def)

lemma filter_fresh_insert:
  "filter (\<lambda>q. fresh seen q \<and> url q \<noteq> Some u) ps = filter (fresh (insert u seen)) ps"
  by (induction ps) (auto simp: fresh_def split: option.splits)

lemma merge_products_Nil: "merge_products [] st = st"
  by (cases st) simp

lemma merge_products_fst:
  "fst (merge_products ps (acc, seen)) = acc @ first_seen (filter (fresh seen) ps)"
proof (induction ps arbitrary: acc seen)
  case Nil
  show ?case by simp
next
  case (Cons p ps)
  show ?case
  proof (cases "url p")
    case None
    with Cons show ?thesis by (simp add: fresh_def)
  next
    case (Some u)
    show ?thesis
    proof (cases "u \<noteq> [] \<and> u \<notin> seen")
      case True
      then have "fresh seen p" using Some by (simp add: fresh_def)
      with True Some Cons [of "acc @ [p]" "insert u seen"] show ?thesis
        by (simp add: filter_fresh_insert)
    next
      case False
      then have "\<not> fresh seen p" using Some by (auto simp: fresh_def)
      with False Some Cons [of acc seen] show ?thesis by auto
    qed
  qed
qed

lemma merge_products_append:
  "merge_products (xs @ ys) st = merge_products ys (merge_products xs st)"
proof (induction xs arbitrary: st)
  case Nil
  show ?case by (simp add: merge_products_Nil)
next
  case (Cons p xs)
  obtain acc seen where st: "st = (acc, seen)" by (cases st)
  show ?case unfolding st using Cons by (simp split: option.splits)
qed

lemma merge_results_arrived:
  "merge_results results st = merge_products (arrived results) st"
  by (induction results arbitrary: st)
     (simp_all add: merge_results_def arrived_def merge_products_append merge_products_Nil)

lemma merge_shards_first_seen:
  "merge_shards results = first_seen (filter usable (arrived results))"
proof -
  have "fresh {} = usable" by (rule ext) (rule fresh_empty)
  then show ?thesis
    by (simp add: merge_shards_def merge_results_arrived merge_products_fst)
qed

lemma count_list_distinct:
  "distinct xs \<Longrightarrow> count_list xs x = (if x \<in> set xs then 1 else 0)"
  by (induction xs) auto

lemma url_set_merge_shards:
  "set (map url (merge_shards results)) = {k \<in> set (map url (arrived results)). truthy k}"
proof -
  have "url ` set (filter usable (arrived results)) = {k \<in> url ` set (arrived results). truthy k}"
    by (auto simp: usable_def)
  then show ?thesis
    by (simp add: merge_shards_first_seen url_set_first_seen)
qed

lemma merge_shards_as_outcome:
  "merge_shards [as_outcome u out (merge_shards results)] = merge_shards results"
proof -
  have "merge_shards [as_outcome u out (merge_shards results)]
      = first_seen (filter usable (merge_shards results))"
    by (simp add: merge_shards_first_seen arrived_def as_outcome_def)
  also have "\<dots> = first_seen (merge_shards results)"
    by (simp add: merge_shards_first_seen filter_first_seen)
  also have "\<dots> = merge_shards results"
    by (rule first_seen_distinct_id) (simp add: merge_shards_first_seen distinct_first_seen)
  finally show ?thesis .
qed

text \<open>
  Claim C2. For every sequence of shard outcomes the merged collection has no two records
  with the same product URL, every usable (non-\<^verbatim>\<open>None\<close>, non-empty) URL of an arriving
  record occurs exactly once among the merged URLs and no other URL occurs, and the merged
  records are the arriving usable records in first-seen order: each record that is the
  first of its URL is kept, every later one is dropped.
\<close>

theorem merge_shards_unique_first_seen:
  "distinct (map url (merge_shards results)) \<and>
   count_list (map url (merge_shards results)) k =
     (if truthy k \<and> k \<in> set (map url (arrived results)) then 1 else 0) \<and>
   merge_shards results = first_seen (filter usable (arrived results))"
proof -
  have d: "distinct (map url (merge_shards results))"
    by (simp add: merge_shards_first_seen distinct_first_seen)
  have "count_list (map url (merge_shards results)) k =
     (if k \<in> set (map url (merge_shards results)) then 1 else 0)"
    using d by (rule count_list_distinct)
  also have "\<dots> = (if truthy k \<and> k \<in> set (map url (arrived results)) then 1 else 0)"
    unfolding url_set_merge_shards by auto
  finally show ?thesis
    using d merge_shards_first_seen by blast
qed

text \<open>
  Claim C8. Merging is idempotent: the merge step run on its own output (handed back as
  one outcome) returns that output again, so the set of identity keys is the same as
  after a single merge; that set is the set of usable URLs of the arriving records,
  whatever the number of copies of each.
\<close>

theorem merge_shards_idempotent:
  "merge_shards [as_outcome u out (merge_shards results)] = merge_shards results \<and>
   set (map url (merge_shards [as_outcome u out (merge_shards results)])) =
     set (map url (merge_shards results)) \<and>
   set (map url (merge_shards results)) = {k \<in> set (map url (arrived results)). truthy k}"
  using merge_shards_as_outcome [of u out results] url_set_merge_shards [of results]
  by simp

section \<open>The polling loop \<^verbatim>\<open>wait_for_increase\<close>\<close>

lemma emits_refl: "emits s s []"
  by (simp add: emits_def)

lemma emits_trans: "emits s s1 a \<Longrightarrow> emits s1 s2 b \<Longrightarrow> emits s s2 (a @ b)"
  by (simp add: emits_def)

lemma emits_unique: "emits s s' a \<Longrightarrow> emits s s' b \<Longrightarrow> a = b"
  by (simp add: emits_def)

lemma perform_emits:
  assumes "perform f ev s = (r, s')"
  shows "emits s s' [ev r] \<and> f (page s) = (r, page s') \<and>
         products s' = products s \<and> seen_urls s' = seen_urls s"
  using assms by (auto simp: perform_def emits_def split: prod.splits)

lemma read_clock_emits:
  assumes "read_clock ops s = (t, s')"
  shows "emits s s' [Time_time t] \<and> t = time_time ops (page s) \<and> page s' = page s \<and>
         products s' = products s \<and> seen_urls s' = seen_urls s"
  using assms by (auto simp: read_clock_def perform_def emits_def)

lemma products_count_emits:
  assumes "products_count ops s = (n, s')"
  shows "\<exists>r. emits s s' [Locator_count r] \<and> n = count_of r \<and> page s' = snd (locator_count ops (page s)) \<and>
             products s' = products s \<and> seen_urls s' = seen_urls s"
  using assms
  by (auto simp: products_count_def perform_def emits_def split: prod.splits sum.splits)

lemma wait_loop_trace:
  assumes "wait_loop ops prev timeout_ms poll_ms start s = Some y"
  shows "\<exists>es. emits s (snd y) es \<and> poll_trace prev timeout_ms poll_ms start es (fst y) \<and>
              products (snd y) = products s \<and> seen_urls (snd y) = seen_urls s"
  using assms
proof (induction rule: wait_loop.raw_induct [rotated, consumes 1, case_names step])
  case (step loop ops prev timeout_ms poll_ms start s y)
  obtain t s1 where clk: "read_clock ops s = (t, s1)"
    by (cases "read_clock ops s")
  from read_clock_emits [OF clk] have
    c: "emits s s1 [Time_time t]" "products s1 = products s" "seen_urls s1 = seen_urls s"
    by blast+
  show ?case
  proof (cases "(t - start) * 1000 < of_int timeout_ms")
    case False
    with step(2) clk have y: "y = (Inr False, s1)" by simp
    have "poll_trace prev timeout_ms poll_ms start [Time_time t] (Inr False)"
      using False by (rule poll_trace.timed_out)
    then show ?thesis
      unfolding y using c by auto
  next
    case True
    obtain n s2 where cnt: "products_count ops s1 = (n, s2)"
      by (cases "products_count ops s1")
    from products_count_emits [OF cnt] obtain r where
      r: "emits s1 s2 [Locator_count r]" "n = count_of r"
         "products s2 = products s1" "seen_urls s2 = seen_urls s1"
      by blast
    have e2: "emits s s2 [Time_time t, Locator_count r]"
      using emits_trans [OF c(1) r(1)] by simp
    show ?thesis
    proof (cases "prev < n")
      case big: True
      with step(2) clk True cnt have y: "y = (Inr True, s2)" by simp
      have "poll_trace prev timeout_ms poll_ms start [Time_time t, Locator_count r] (Inr True)"
        using True big unfolding r(2) by (rule poll_trace.increased)
      then show ?thesis
        unfolding y using e2 c r by auto
    next
      case small: False
      obtain w s3 where wt: "perform (wait_for_timeout ops poll_ms) (Wait_for_timeout poll_ms) s2 = (w, s3)"
        by (cases "perform (wait_for_timeout ops poll_ms) (Wait_for_timeout poll_ms) s2")
      from perform_emits [OF wt] have
        p: "emits s2 s3 [Wait_for_timeout poll_ms w]" "products s3 = products s2"
           "seen_urls s3 = seen_urls s2"
        by blast+
      have e3: "emits s s3 [Time_time t, Locator_count r, Wait_for_timeout poll_ms w]"
        using emits_trans [OF e2 p(1)] by simp
      show ?thesis
      proof (cases w)
        case (Inl e)
        with step(2) clk True cnt small wt have y: "y = (Inl e, s3)" by simp
        have "poll_trace prev timeout_ms poll_ms start
                [Time_time t, Locator_count r, Wait_for_timeout poll_ms (Inl e)] (Inl e)"
          using True small unfolding r(2) by (rule poll_trace.wait_raised)
        then show ?thesis
          unfolding y using e3 c r p Inl by auto
      next
        case (Inr u)
        with step(2) clk True cnt small wt have "loop ops prev timeout_ms poll_ms start s3 = Some y"
          by simp
        from step(1) [OF this] obtain es where
          es: "emits s3 (snd y) es" "poll_trace prev timeout_ms poll_ms start es (fst y)"
              "products (snd y) = products s3" "seen_urls (snd y) = seen_urls s3"
          by blast
        have "emits s (snd y) (Time_time t # Locator_count r # Wait_for_timeout poll_ms (Inr ()) # es)"
          using emits_trans [OF e3 es(1)] Inr by simp
        moreover have "poll_trace prev timeout_ms poll_ms start
            (Time_time t # Locator_count r # Wait_for_timeout poll_ms (Inr ()) # es) (fst y)"
          using True small es(2) unfolding r(2) by (rule poll_trace.again)
        ultimately show ?thesis
          using es c r p by auto
      qed
    qed
  qed
qed

lemma poll_trace_events:
  "poll_trace prev timeout_ms poll_ms start es res \<Longrightarrow>
   \<forall>e\<in>set es. (\<exists>t. e = Time_time t) \<or> (\<exists>r. e = Locator_count r) \<or> (\<exists>r. e = Wait_for_timeout poll_ms r)"
  by (induction rule: poll_trace.induct) auto

lemma poll_trace_observation:
  "poll_trace prev timeout_ms poll_ms start es res \<Longrightarrow> list_all observation es"
  by (induction rule: poll_trace.induct) auto

lemma poll_trace_polls_after:
  "poll_trace prev timeout_ms poll_ms start es res \<Longrightarrow> polls_after start timeout_ms ok es"
  by (induction arbitrary: ok rule: poll_trace.induct) auto

lemma poll_trace_in_time:
  "poll_trace prev timeout_ms poll_ms start es res \<Longrightarrow> polls_in_time start timeout_ms es"
  by (simp add: polls_in_time_def poll_trace_polls_after)

lemma poll_trace_nonempty:
  "poll_trace prev timeout_ms poll_ms start es res \<Longrightarrow> es \<noteq> []"
  by (induction rule: poll_trace.induct) auto

lemma poll_trace_True:
  "poll_trace prev timeout_ms poll_ms start es res \<Longrightarrow>
   (res = Inr True) = (\<exists>r. Locator_count r \<in> set es \<and> prev < count_of r)"
  by (induction rule: poll_trace.induct) auto

lemma poll_trace_False:
  "poll_trace prev timeout_ms poll_ms start es res \<Longrightarrow>
   (res = Inr False) = (\<exists>t. last es = Time_time t \<and> of_int timeout_ms \<le> (t - start) * 1000)"
  by (induction rule: poll_trace.induct) (auto simp: not_less dest: poll_trace_nonempty)

lemma poll_trace_raise:
  "poll_trace prev timeout_ms poll_ms start es res \<Longrightarrow>
   (res = Inl e) = (Wait_for_timeout poll_ms (Inl e) \<in> set es)"
  by (induction rule: poll_trace.induct) auto

lemma wait_loop_terminates:
  assumes ok: "clock_ok ops" and pos: "0 < poll_ms"
  shows "\<exists>y. wait_loop ops prev timeout_ms poll_ms start s = Some y"
proof (induction "nat \<lceil>of_int timeout_ms - (time_time ops (page s) - start) * 1000\<rceil>"
         arbitrary: s rule: less_induct)
  case less
  obtain t s1 where clk: "read_clock ops s = (t, s1)"
    by (cases "read_clock ops s")
  from read_clock_emits [OF clk] have t: "t = time_time ops (page s)" and p1: "page s1 = page s"
    by blast+
  show ?case
  proof (cases "(t - start) * 1000 < of_int timeout_ms")
    case False
    then show ?thesis
      by (subst wait_loop.simps) (simp add: clk)
  next
    case True
    obtain n s2 where cnt: "products_count ops s1 = (n, s2)"
      by (cases "products_count ops s1")
    from products_count_emits [OF cnt] have p2: "page s2 = snd (locator_count ops (page s1))"
      by blast
    have t2: "t \<le> time_time ops (page s2)"
      using ok unfolding clock_ok_def p2 p1 t by blast
    show ?thesis
    proof (cases "prev < n")
      case big: True
      then show ?thesis
        by (subst wait_loop.simps) (simp add: clk True cnt)
    next
      case small: False
      obtain w s3 where wt: "perform (wait_for_timeout ops poll_ms) (Wait_for_timeout poll_ms) s2 = (w, s3)"
        by (cases "perform (wait_for_timeout ops poll_ms) (Wait_for_timeout poll_ms) s2")
      from perform_emits [OF wt] have p3: "wait_for_timeout ops poll_ms (page s2) = (w, page s3)"
        by blast
      show ?thesis
      proof (cases w)
        case (Inl e)
        then show ?thesis
          by (subst wait_loop.simps) (simp add: clk True cnt small wt)
      next
        case (Inr u)
        with p3 have "wait_for_timeout ops poll_ms (page s2) = (Inr (), page s3)"
          by simp
        with ok have "time_time ops (page s2) + of_int poll_ms / 1000 \<le> time_time ops (page s3)"
          unfolding clock_ok_def by blast
        with t2 have t3: "t + of_int poll_ms / 1000 \<le> time_time ops (page s3)"
          by linarith
        have "(of_int 1 :: rat) \<le> of_int poll_ms"
          using pos by (subst of_int_le_iff) simp
        then have one: "(1::rat) \<le> of_int poll_ms"
          by simp
        define x where "x = of_int timeout_ms - (t - start) * 1000"
        define x' where "x' = of_int timeout_ms - (time_time ops (page s3) - start) * 1000"
        have "x' \<le> x - 1"
          using t3 one unfolding x_def x'_def by (simp add: field_simps)
        then have "\<lceil>x'\<rceil> \<le> \<lceil>x - 1\<rceil>"
          by (rule ceiling_mono)
        moreover have "0 < x"
          using True unfolding x_def by simp
        then have "0 < \<lceil>x\<rceil>"
          by simp
        ultimately have "nat \<lceil>x'\<rceil> < nat \<lceil>x\<rceil>"
          by simp
        then have "\<exists>y. wait_loop ops prev timeout_ms poll_ms start s3 = Some y"
          unfolding x_def x'_def t by (rule less)
        then show ?thesis
          by (subst wait_loop.simps) (simp add: clk True cnt small wt Inr)
      qed
    qed
  qed
qed

lemma wait_for_increase_trace:
  assumes "wait_for_increase ops prev timeout_ms poll_ms s = Some (res, s')"
  shows "\<exists>start es. emits s s' (Time_time start # es) \<and>
           poll_trace prev timeout_ms poll_ms start es res \<and>
           products s' = products s \<and> seen_urls s' = seen_urls s"
proof -
  obtain start s0 where clk: "read_clock ops s = (start, s0)"
    by (cases "read_clock ops s")
  from read_clock_emits [OF clk] have
    c: "emits s s0 [Time_time start]" "products s0 = products s" "seen_urls s0 = seen_urls s"
    by blast+
  from assms clk have "wait_loop ops prev timeout_ms poll_ms start s0 = Some (res, s')"
    by (simp add: wait_for_increase_def)
  from wait_loop_trace [OF this] obtain es where
    es: "emits s0 s' es" "poll_trace prev timeout_ms poll_ms start es res"
        "products s' = products s0" "seen_urls s' = seen_urls s0"
    by auto
  have "emits s s' (Time_time start # es)"
    using emits_trans [OF c(1) es(1)] by simp
  then show ?thesis
    using es c by auto
qed

lemma wait_for_increase_terminates:
  assumes "clock_ok ops" and "0 < poll_ms"
  shows "\<exists>y. wait_for_increase ops prev timeout_ms poll_ms s = Some y"
  using wait_loop_terminates [OF assms]
  by (simp add: wait_for_increase_def split: prod.splits)

lemma clock_ok_sim_ops: "clock_ok sim_ops"
  by (simp add: clock_ok_def sim_ops_def)

text \<open>
  Claim C5. When time passes as expected (\<^const>\<open>clock_ok\<close>) and the poll interval is
  positive, \<^verbatim>\<open>wait_for_increase\<close> returns. Whenever it returns, it has read the start
  time and then only observed: clock readings, counts and waits, every count read right
  after a clock reading before the timeout. It returns \<^verbatim>\<open>True\<close> exactly when one of
  these polls saw a count above \<^verbatim>\<open>prev_count\<close>, \<^verbatim>\<open>False\<close> exactly when its last clock
  reading was at or past the timeout, and it raises exactly when a wait on the page
  raised; a count that stalls, or that cannot be read (it counts as 0), never raises.
  The collected products are untouched.
\<close>

theorem wait_for_increase_polls:
  "(clock_ok ops \<longrightarrow> 0 < poll_ms \<longrightarrow>
      (\<exists>y. wait_for_increase ops prev timeout_ms poll_ms s = Some y)) \<and>
   (\<forall>res s'. wait_for_increase ops prev timeout_ms poll_ms s = Some (res, s') \<longrightarrow>
      (\<exists>start es. log s' = log s @ Time_time start # es \<and>
         polls_in_time start timeout_ms es \<and>
         (res = Inr True) = (\<exists>r. Locator_count r \<in> set es \<and> prev < count_of r) \<and>
         (res = Inr False) =
           (\<exists>t. last es = Time_time t \<and> of_int timeout_ms \<le> (t - start) * 1000) \<and>
         (\<forall>e. (res = Inl e) = (Wait_for_timeout poll_ms (Inl e) \<in> set es)) \<and>
         list_all observation es \<and>
         products s' = products s \<and> seen_urls s' = seen_urls s))"
proof (intro conjI allI impI)
  assume "clock_ok ops" and "0 < poll_ms"
  then show "\<exists>y. wait_for_increase ops prev timeout_ms poll_ms s = Some y"
    by (rule wait_for_increase_terminates)
next
  fix res s'
  assume "wait_for_increase ops prev timeout_ms poll_ms s = Some (res, s')"
  from wait_for_increase_trace [OF this] obtain start es where
    e: "emits s s' (Time_time start # es)"
    and tr: "poll_trace prev timeout_ms poll_ms start es res"
    and ps: "products s' = products s" "seen_urls s' = seen_urls s"
    by blast
  have "log s' = log s @ Time_time start # es"
    using e by (simp add: emits_def)
  moreover note poll_trace_in_time [OF tr] poll_trace_True [OF tr] poll_trace_False [OF tr]
    poll_trace_observation [OF tr] ps
  moreover have "\<forall>e. (res = Inl e) = (Wait_for_timeout poll_ms (Inl e) \<in> set es)"
    using poll_trace_raise [OF tr] by blast
  ultimately show "\<exists>start es. log s' = log s @ Time_time start # es \<and>
         polls_in_time start timeout_ms es \<and>
         (res = Inr True) = (\<exists>r. Locator_count r \<in> set es \<and> prev < count_of r) \<and>
         (res = Inr False) =
           (\<exists>t. last es = Time_time t \<and> of_int timeout_ms \<le> (t - start) * 1000) \<and>
         (\<forall>e. (res = Inl e) = (Wait_for_timeout poll_ms (Inl e) \<in> set es)) \<and>
         list_all observation es \<and>
         products s' = products s \<and> seen_urls s' = seen_urls s"
    by blast
qed

theorem wait_for_increase_polls_witness:
  "clock_ok sim_ops \<and> (0::int) < 300 \<and>
   (\<exists>y. wait_for_increase sim_ops 1 600 300 (fresh_scraper scroll_page) = Some y) \<and>
   map_option fst (wait_for_increase sim_ops 1 600 300 (fresh_scraper scroll_page))
     = Some (Inr False) \<and>
   map_option (log \<circ> snd) (wait_for_increase sim_ops 1 600 300 (fresh_scraper scroll_page))
     = Some [Time_time 0, Time_time 0, Locator_count (Inr 1), Wait_for_timeout 300 (Inr ()),
             Time_time (3 / 10), Locator_count (Inr 1), Wait_for_timeout 300 (Inr ()),
             Time_time (6 / 10)]"
proof -
  have a: "map_option fst (wait_for_increase sim_ops 1 600 300 (fresh_scraper scroll_page))
     = Some (Inr False)"
    by code_simp
  have b: "map_option (log \<circ> snd) (wait_for_increase sim_ops 1 600 300 (fresh_scraper scroll_page))
     = Some [Time_time 0, Time_time 0, Locator_count (Inr 1), Wait_for_timeout 300 (Inr ()),
             Time_time (3 / 10), Locator_count (Inr 1), Wait_for_timeout 300 (Inr ()),
             Time_time (6 / 10)]"
    by code_simp
  have c: "\<exists>y. wait_for_increase sim_ops 1 600 300 (fresh_scraper scroll_page) = Some y"
    using wait_for_increase_polls [where ops = sim_ops and poll_ms = 300 and prev = 1
        and timeout_ms = 600 and s = "fresh_scraper scroll_page"] clock_ok_sim_ops
    by simp
  show ?thesis
    using a b c clock_ok_sim_ops by simp
qed

section \<open>Properties of the shard planner\<close>












section \<open>Events of the building blocks of an attempt\<close>

lemma extracted_Nil [simp]: "\<not> extracted []"
  by (simp add: extracted_def)

lemma extracted_append [simp]: "extracted (a @ b) = (extracted a \<or> extracted b)"
  by (simp add: extracted_def)

lemma extracted_Cons [simp]: "extracted (e # es) = (is_listing e \<or> extracted es)"
  by (simp add: extracted_def)

lemma phase_run_refl: "phase_run st False s s"
  unfolding phase_run_def using emits_refl [of s] by (intro exI [of _ "[]"]) simp

lemma phase_run_trans: "phase_run st False s s1 \<Longrightarrow> phase_run st c s1 s2 \<Longrightarrow> phase_run st c s s2"
  unfolding phase_run_def
proof (elim exE conjE)
  fix a b
  assume "emits s s1 a" "emits s1 s2 b" "list_all (belongs st) a" "list_all (belongs st) b"
    "False = extracted a" "c = extracted b"
  then show "\<exists>es. emits s s2 es \<and> list_all (belongs st) es \<and> c = extracted es"
    by (intro exI [of _ "a @ b"]) (simp add: emits_trans)
qed

lemma phase_run_perform:
  assumes "perform f ev s = (r, s')" and "belongs st (ev r)" and "\<not> is_listing (ev r)"
  shows "phase_run st False s s'"
  unfolding phase_run_def using perform_emits [OF assms(1)] assms(2,3)
  by (intro exI [of _ "[ev r]"]) simp

lemma phase_run_step:
  assumes "phase_run st False s s1" and "perform f ev s1 = (r, s2)"
    and "belongs st (ev r)" and "\<not> is_listing (ev r)"
  shows "phase_run st False s s2"
  using phase_run_trans [OF assms(1) phase_run_perform [OF assms(2-4)]] .

lemma products_count_phase:
  assumes "products_count ops s = (n, s')"
  shows "phase_run st False s s'"
proof -
  from products_count_emits [OF assms] obtain r where "emits s s' [Locator_count r]"
    by blast
  then show ?thesis
    unfolding phase_run_def by (intro exI [of _ "[Locator_count r]"]) simp
qed

lemma click_first_phase:
  assumes "click_first ops sels s = (r, s')"
    and "st \<noteq> Scroll"
    and "\<And>sel q. sel \<in> set sels \<Longrightarrow> belongs st (Query_selector sel q)"
  shows "phase_run st False s s'"
  using assms
proof (induction sels arbitrary: s)
  case Nil
  then show ?case by (simp add: phase_run_refl)
next
  case (Cons sel sels)
  have ih: "\<And>s0. click_first ops sels s0 = (r, s') \<Longrightarrow> phase_run st False s0 s'"
    using Cons.IH Cons.prems(2,3) by simp
  obtain q s1 where q: "perform (query_selector ops sel) (Query_selector sel) s = (q, s1)"
    by (cases "perform (query_selector ops sel) (Query_selector sel) s")
  have r1: "phase_run st False s s1"
    using phase_run_perform [OF q] Cons.prems(3) by simp
  show ?case
  proof (cases q)
    case (Inl e)
    with Cons.prems(1) q r1 show ?thesis by simp
  next
    case (Inr found)
    show ?thesis
    proof (cases found)
      case None
      with Cons.prems(1) q Inr have "click_first ops sels s1 = (r, s')" by simp
      then show ?thesis using r1 ih by (blast intro: phase_run_trans)
    next
      case (Some btn)
      obtain en s2 where en: "perform (is_enabled ops btn) (Is_enabled btn) s1 = (en, s2)"
        by (cases "perform (is_enabled ops btn) (Is_enabled btn) s1")
      have r2: "phase_run st False s s2"
        using phase_run_step [OF r1 en] Cons.prems(2) by simp
      show ?thesis
      proof (cases en)
        case (Inl e)
        with Cons.prems(1) q \<open>q = Inr found\<close> Some en r2 show ?thesis by simp
      next
        case enabled: (Inr b)
        show ?thesis
        proof (cases b)
          case False
          with Cons.prems(1) q \<open>q = Inr found\<close> Some en enabled
          have "click_first ops sels s2 = (r, s')" by simp
          then show ?thesis using r2 ih by (blast intro: phase_run_trans)
        next
          case True
          obtain vi s3 where vi: "perform (is_visible ops btn) (Is_visible btn) s2 = (vi, s3)"
            by (cases "perform (is_visible ops btn) (Is_visible btn) s2")
          have r3: "phase_run st False s s3"
            using phase_run_step [OF r2 vi] Cons.prems(2) by simp
          show ?thesis
          proof (cases vi)
            case (Inl e)
            with Cons.prems(1) q \<open>q = Inr found\<close> Some en enabled True vi r3
            show ?thesis by simp
          next
            case visible: (Inr b')
            show ?thesis
            proof (cases b')
              case False
              with Cons.prems(1) q \<open>q = Inr found\<close> Some en enabled True vi visible
              have "click_first ops sels s3 = (r, s')" by simp
              then show ?thesis using r3 ih by (blast intro: phase_run_trans)
            next
              case vis: True
              obtain cl s4 where cl: "perform (click ops btn) (Click btn) s3 = (cl, s4)"
                by (cases "perform (click ops btn) (Click btn) s3")
              have r4: "phase_run st False s s4"
                using phase_run_step [OF r3 cl] Cons.prems(2) by simp
              from Cons.prems(1) q \<open>q = Inr found\<close> Some en enabled True vi visible vis cl
              have "s' = s4" by (cases cl) auto
              with r4 show ?thesis by simp
            qed
          qed
        qed
      qed
    qed
  qed
qed

lemma product_data_events:
  "list_all is_product_data es \<Longrightarrow> list_all (belongs st) es \<and> \<not> extracted es"
proof (induction es)
  case Nil
  show ?case by simp
next
  case (Cons e es)
  then show ?case by (cases e) auto
qed

lemma extract_items_original_events:
  "\<exists>es. emits s (extract_items_original ops hs s) es \<and> list_all is_product_data es"
proof (induction hs arbitrary: s)
  case Nil
  show ?case using emits_refl [of s] by (intro exI [of _ "[]"]) simp
next
  case (Cons h hs)
  obtain r s1 where p: "perform (product_data ops h) (Product_data h) s = (r, s1)"
    by (cases "perform (product_data ops h) (Product_data h) s")
  from perform_emits [OF p] have e1: "emits s s1 [Product_data h r]"
    by blast
  have "\<exists>s2. extract_items_original ops (h # hs) s = extract_items_original ops hs s2 \<and>
             log s2 = log s1"
    using p by (cases r) auto
  then obtain s2 where s2: "extract_items_original ops (h # hs) s = extract_items_original ops hs s2"
    and l2: "log s2 = log s1"
    by blast
  from Cons [of s2] obtain es where
    es: "emits s2 (extract_items_original ops hs s2) es" "list_all is_product_data es"
    by blast
  have "emits s (extract_items_original ops hs s2) (Product_data h r # es)"
    using e1 es(1) l2 by (simp add: emits_def)
  then show ?case
    unfolding s2 using es(2) by (intro exI [of _ "Product_data h r # es"]) simp
qed

lemma extract_items_optimized_events:
  "\<exists>es. emits s (extract_items_optimized ops hs s) es \<and> list_all is_product_data es"
proof (induction hs arbitrary: s)
  case Nil
  show ?case using emits_refl [of s] by (intro exI [of _ "[]"]) simp
next
  case (Cons h hs)
  obtain r s1 where p: "perform (product_data ops h) (Product_data h) s = (r, s1)"
    by (cases "perform (product_data ops h) (Product_data h) s")
  from perform_emits [OF p] have e1: "emits s s1 [Product_data h r]"
    by blast
  have "\<exists>s2. extract_items_optimized ops (h # hs) s = extract_items_optimized ops hs s2 \<and>
             log s2 = log s1"
    using p by (cases r) (auto split: option.splits)
  then obtain s2 where s2: "extract_items_optimized ops (h # hs) s = extract_items_optimized ops hs s2"
    and l2: "log s2 = log s1"
    by blast
  from Cons [of s2] obtain es where
    es: "emits s2 (extract_items_optimized ops hs s2) es" "list_all is_product_data es"
    by blast
  have "emits s (extract_items_optimized ops hs s2) (Product_data h r # es)"
    using e1 es(1) l2 by (simp add: emits_def)
  then show ?case
    unfolding s2 using es(2) by (intro exI [of _ "Product_data h r # es"]) simp
qed

lemma extract_page_products_events:
  assumes "extract_page_products v ops i s = (r, s')"
  shows "\<exists>q es. emits s s' (Query_selector_all q # es) \<and> list_all is_product_data es \<and>
           fst (query_selector_all ops (page s)) = q \<and>
           (case r of Inl e \<Rightarrow> q = Inl e \<and> es = [] | Inr u \<Rightarrow> \<not> isl q)"
proof -
  obtain q s1 where p: "perform (query_selector_all ops) Query_selector_all s = (q, s1)"
    by (cases "perform (query_selector_all ops) Query_selector_all s")
  from perform_emits [OF p] have e1: "emits s s1 [Query_selector_all q]"
    and q: "fst (query_selector_all ops (page s)) = q"
    by simp_all
  show ?thesis
  proof (cases q)
    case (Inl e)
    with assms p have "r = Inl e" "s' = s1"
      by (cases v; simp add: extract_page_products_original_def extract_page_products_optimized_def)+
    with e1 q Inl show ?thesis
      by (intro exI [of _ q] exI [of _ "[]"]) simp
  next
    case (Inr items)
    have "\<exists>es. emits s1 s' es \<and> list_all is_product_data es \<and> r = Inr ()"
    proof (cases v)
      case Original
      with assms p Inr have "s' = extract_items_original ops items s1" "r = Inr ()"
        by (simp_all add: extract_page_products_original_def)
      then show ?thesis using extract_items_original_events [of s1 ops items] by simp
    next
      case Optimized
      with assms p Inr have
        "s' = extract_items_optimized ops (if 0 < i then drop (nat i) items else items) s1"
        "r = Inr ()"
        by (simp_all add: extract_page_products_optimized_def)
      then show ?thesis
        using extract_items_optimized_events
                [of s1 ops "if 0 < i then drop (nat i) items else items"] by simp
    qed
    then obtain es where es: "emits s1 s' es" "list_all is_product_data es" "r = Inr ()"
      by blast
    have "emits s s' (Query_selector_all q # es)"
      using emits_trans [OF e1 es(1)] by simp
    with es q Inr show ?thesis
      by (intro exI [of _ q] exI [of _ es]) simp
  qed
qed

lemma extract_page_products_phase:
  assumes "extract_page_products v ops i s = (r, s')"
  shows "phase_run st (\<not> isl r) s s'"
proof -
  from extract_page_products_events [OF assms] obtain q es where
    e: "emits s s' (Query_selector_all q # es)" and pd: "list_all is_product_data es"
    and r: "case r of Inl e \<Rightarrow> q = Inl e \<and> es = [] | Inr u \<Rightarrow> \<not> isl q"
    by blast
  have "(\<not> isl r) = is_listing (Query_selector_all q)"
    using r by (cases r; cases q) auto
  then show ?thesis
    unfolding phase_run_def using e product_data_events [OF pd, of st]
    by (intro exI [of _ "Query_selector_all q # es"]) simp
qed

lemma wait_for_increase_phase:
  assumes "wait_for_increase ops prev timeout_ms 300 s = Some (r, s')" and "st \<noteq> Scroll"
  shows "phase_run st False s s'"
proof -
  from wait_for_increase_trace [OF assms(1)] obtain start es where
    e: "emits s s' (Time_time start # es)" and tr: "poll_trace prev timeout_ms 300 start es r"
    by blast
  have "list_all (belongs st) es \<and> \<not> extracted es"
    using poll_trace_events [OF tr] assms(2)
    by (induction es) auto
  then show ?thesis
    unfolding phase_run_def using e assms(2)
    by (intro exI [of _ "Time_time start # es"]) simp
qed

lemma after_click_phase:
  assumes "after_click v ops prev s = Some (c, s')" and "st \<noteq> Scroll"
  shows "phase_run st c s s'"
proof -
  from assms(1) obtain w s1 where w: "wait_for_increase ops prev 15000 300 s = Some (w, s1)"
    by (auto simp: after_click_def split: option.splits)
  note r1 = wait_for_increase_phase [OF w assms(2)]
  show ?thesis
  proof (cases "w = Inr True")
    case False
    with assms(1) w have "c = False" "s' = s1"
      by (auto simp: after_click_def split: sum.splits bool.splits)
    with r1 show ?thesis by simp
  next
    case True
    obtain x s2 where x: "extract_page_products v ops prev s1 = (x, s2)"
      by (cases "extract_page_products v ops prev s1")
    with assms(1) w True have "c = (\<not> isl x)" "s' = s2"
      by (auto simp: after_click_def split: sum.splits)
    with phase_run_trans [OF r1 extract_page_products_phase [OF x, of st]] show ?thesis
      by simp
  qed
qed

lemma load_more_strategy_phase:
  assumes "load_more_strategy v ops prev s = Some (c, s')"
  shows "phase_run Load_more c s s'"
proof -
  obtain k s1 where k: "click_first ops load_more_selectors s = (k, s1)"
    by (cases "click_first ops load_more_selectors s")
  have r1: "phase_run Load_more False s s1"
    using k by (rule click_first_phase) simp_all
  show ?thesis
  proof (cases "k = Inr True")
    case False
    with assms k have "c = False" "s' = s1"
      by (auto simp: load_more_strategy_def split: sum.splits bool.splits)
    with r1 show ?thesis by simp
  next
    case True
    with assms k have "after_click v ops prev s1 = Some (c, s')"
      by (simp add: load_more_strategy_def)
    from phase_run_trans [OF r1 after_click_phase [OF this]] show ?thesis
      by simp
  qed
qed

lemma next_page_strategy_phase:
  assumes "next_page_strategy v ops cfg prev s = Some (c, s')"
  shows "phase_run Next_page c s s'"
proof -
  obtain k s1 where k: "click_first ops next_selectors s = (k, s1)"
    by (cases "click_first ops next_selectors s")
  have r1: "phase_run Next_page False s s1"
    using k by (rule click_first_phase) simp_all
  show ?thesis
  proof (cases "k = Inr True")
    case False
    with assms k have "c = False" "s' = s1"
      by (auto simp: next_page_strategy_def split: sum.splits bool.splits)
    with r1 show ?thesis by simp
  next
    case True
    obtain w s2 where w: "perform (wait_for_load_state ops (timeout cfg))
        (Wait_for_load_state (timeout cfg)) s1 = (w, s2)"
      by (cases "perform (wait_for_load_state ops (timeout cfg)) (Wait_for_load_state (timeout cfg)) s1")
    have r2: "phase_run Next_page False s s2"
      using phase_run_step [OF r1 w] by simp
    from True assms k w have "after_click v ops prev s2 = Some (c, s')"
      by (simp add: next_page_strategy_def)
    from phase_run_trans [OF r2 after_click_phase [OF this]] show ?thesis
      by simp
  qed
qed

lemma click_first_grows:
  "click_first ops sels s = (r, s') \<Longrightarrow>
   length (log s) + (if sels = [] then 0 else 1) \<le> length (log s')"
proof (induction sels arbitrary: s)
  case Nil
  then show ?case by simp
next
  case (Cons sel sels)
  have ih: "\<And>s0. click_first ops sels s0 = (r, s') \<Longrightarrow> length (log s0) \<le> length (log s')"
    using Cons.IH by (fastforce split: if_splits)
  show ?case
    using Cons.prems
    by (auto simp: perform_def split: prod.splits sum.splits option.splits bool.splits dest!: ih)
qed

lemma phase_run_length: "phase_run st c s s' \<Longrightarrow> length (log s) \<le> length (log s')"
  by (auto simp: phase_run_def emits_def)

lemma scroll_steps_Nil [simp]: "scroll_steps [] = 0"
  by (simp add: scroll_steps_def)

lemma scroll_steps_Cons [simp]:
  "scroll_steps (e # es) = (if is_scroll e then 1 else 0) + scroll_steps es"
  by (simp add: scroll_steps_def)

lemma scroll_steps_append [simp]: "scroll_steps (a @ b) = scroll_steps a + scroll_steps b"
  by (simp add: scroll_steps_def)

lemma updates_Nil [simp]: "updates [] = 0"
  by (simp add: updates_def)

lemma updates_Cons [simp]: "updates (e # es) = (if e = Pbar_update then 1 else 0) + updates es"
  by (simp add: updates_def)

lemma updates_append [simp]: "updates (a @ b) = updates a + updates b"
  by (simp add: updates_def)

lemma belongs_no_update: "list_all (belongs st) es \<Longrightarrow> updates es = 0"
  by (induction es) auto

lemma belongs_no_scroll: "list_all (belongs st) es \<Longrightarrow> st \<noteq> Scroll \<Longrightarrow> scroll_steps es = 0"
proof (induction es)
  case Nil
  show ?case by simp
next
  case (Cons e es)
  then show ?case by (cases e) auto
qed

lemma product_data_no_scroll: "list_all is_product_data es \<Longrightarrow> scroll_steps es = 0"
proof (induction es)
  case Nil
  show ?case by simp
next
  case (Cons e es)
  then show ?case by (cases e) auto
qed

lemma scroll_loop_events:
  "scroll_loop ops n prev inc s = (r, s') \<Longrightarrow>
   \<exists>es. emits s s' es \<and> list_all (belongs Scroll) es \<and> \<not> extracted es \<and>
        scroll_steps es \<le> n \<and> (n = 0 \<or> es \<noteq> [])"
proof (induction n arbitrary: prev inc s)
  case 0
  then show ?case using emits_refl [of s] by (intro exI [of _ "[]"]) simp
next
  case (Suc n)
  obtain x s1 where x: "perform (evaluate ops scroll_script) (Evaluate scroll_script) s = (x, s1)"
    by (cases "perform (evaluate ops scroll_script) (Evaluate scroll_script) s")
  from perform_emits [OF x] have e1: "emits s s1 [Evaluate scroll_script x]"
    by blast
  show ?case
  proof (cases x)
    case (Inl e)
    with Suc.prems x have "s' = s1" by simp
    with e1 show ?thesis
      by (intro exI [of _ "[Evaluate scroll_script x]"]) simp
  next
    case (Inr u)
    obtain w s2 where w: "perform (wait_for_timeout ops 700) (Wait_for_timeout 700) s1 = (w, s2)"
      by (cases "perform (wait_for_timeout ops 700) (Wait_for_timeout 700) s1")
    from perform_emits [OF w] have "emits s1 s2 [Wait_for_timeout 700 w]"
      by blast
    with e1 have e2: "emits s s2 [Evaluate scroll_script x, Wait_for_timeout 700 w]"
      using emits_trans by fastforce
    show ?thesis
    proof (cases w)
      case (Inl e)
      with Suc.prems x \<open>x = Inr u\<close> w have "s' = s2" by simp
      with e2 show ?thesis
        by (intro exI [of _ "[Evaluate scroll_script x, Wait_for_timeout 700 w]"]) simp
    next
      case waited: (Inr u')
      obtain c s3 where c: "products_count ops s2 = (c, s3)"
        by (cases "products_count ops s2")
      from products_count_emits [OF c] obtain rc where "emits s2 s3 [Locator_count rc]"
        by blast
      with e2 have e3: "emits s s3 [Evaluate scroll_script x, Wait_for_timeout 700 w, Locator_count rc]"
        using emits_trans by fastforce
      show ?thesis
      proof (cases "prev < c")
        case False
        with Suc.prems x \<open>x = Inr u\<close> w waited c have "s' = s3" by simp
        with e3 show ?thesis
          by (intro exI [of _ "[Evaluate scroll_script x, Wait_for_timeout 700 w, Locator_count rc]"])
             simp
      next
        case True
        obtain c' s4 where c': "products_count ops s3 = (c', s4)"
          by (cases "products_count ops s3")
        from products_count_emits [OF c'] obtain rc' where "emits s3 s4 [Locator_count rc']"
          by blast
        with e3 have e4: "emits s s4 [Evaluate scroll_script x, Wait_for_timeout 700 w,
            Locator_count rc, Locator_count rc']"
          using emits_trans by fastforce
        from True Suc.prems x \<open>x = Inr u\<close> w waited c c'
        have "scroll_loop ops n c' True s4 = (r, s')" by simp
        from Suc.IH [OF this] obtain es where
          es: "emits s4 s' es" "list_all (belongs Scroll) es" "\<not> extracted es" "scroll_steps es \<le> n"
          by blast
        have "emits s s' ([Evaluate scroll_script x, Wait_for_timeout 700 w,
            Locator_count rc, Locator_count rc'] @ es)"
          using e4 es(1) by (rule emits_trans)
        with es show ?thesis
          by (intro exI [of _ "[Evaluate scroll_script x, Wait_for_timeout 700 w,
            Locator_count rc, Locator_count rc'] @ es"]) simp
      qed
    qed
  qed
qed

lemma scroll_strategy_events:
  assumes "scroll_strategy v ops prev s = (c, s')"
  shows "\<exists>es. emits s s' es \<and> list_all (belongs Scroll) es \<and> c = extracted es \<and>
              scroll_steps es \<le> 10 \<and> es \<noteq> []"
proof -
  obtain r s1 where r: "scroll_loop ops 10 prev False s = (r, s1)"
    by (cases "scroll_loop ops 10 prev False s")
  from scroll_loop_events [OF r] obtain es where
    es: "emits s s1 es" "list_all (belongs Scroll) es" "\<not> extracted es" "scroll_steps es \<le> 10"
        "es \<noteq> []"
    by auto
  show ?thesis
  proof (cases "\<exists>p. r = Inr (True, p)")
    case False
    with assms r have "c = False" "s' = s1"
      by (auto simp: scroll_strategy_def split: sum.splits bool.splits prod.splits)
    with es show ?thesis by (intro exI [of _ es]) simp
  next
    case True
    then obtain p where p: "r = Inr (True, p)" by blast
    obtain x s2 where x: "extract_page_products v ops p s1 = (x, s2)"
      by (cases "extract_page_products v ops p s1")
    with assms r p have cs: "c = (\<not> isl x)" "s' = s2"
      by (auto simp: scroll_strategy_def split: sum.splits)
    from extract_page_products_events [OF x] obtain q ps where
      e: "emits s1 s2 (Query_selector_all q # ps)" and pd: "list_all is_product_data ps"
      and xr: "case x of Inl e \<Rightarrow> q = Inl e \<and> ps = [] | Inr u \<Rightarrow> \<not> isl q"
      by blast
    have l: "(\<not> isl x) = is_listing (Query_selector_all q)"
      using xr by (cases x; cases q) auto
    have "emits s s' (es @ Query_selector_all q # ps)"
      using emits_trans [OF es(1) e] cs by simp
    then show ?thesis
      using es cs l product_data_events [OF pd, of Scroll] product_data_no_scroll [OF pd]
      by (intro exI [of _ "es @ Query_selector_all q # ps"]) simp
  qed
qed

section \<open>One attempt and the attempt loop of \<^verbatim>\<open>extract_all_products\<close>\<close>

lemma phase_run_events:
  assumes "phase_run st c s s'" and "length (log s) < length (log s')"
  shows "\<exists>es. emits s s' es \<and> list_all (belongs st) es \<and> c = extracted es \<and> es \<noteq> []"
  using assms by (auto simp: phase_run_def emits_def)

lemma load_more_strategy_grows:
  assumes "load_more_strategy v ops prev s = Some (c, s')"
  shows "length (log s) < length (log s')"
proof -
  obtain k s1 where k: "click_first ops load_more_selectors s = (k, s1)"
    by (cases "click_first ops load_more_selectors s")
  from click_first_grows [OF k] have g: "length (log s) < length (log s1)"
    by (simp add: load_more_selectors_def)
  show ?thesis
  proof (cases "k = Inr True")
    case False
    with assms k have "s' = s1"
      by (auto simp: load_more_strategy_def split: sum.splits bool.splits)
    with g show ?thesis by simp
  next
    case True
    with assms k have "after_click v ops prev s1 = Some (c, s')"
      by (simp add: load_more_strategy_def)
    from phase_run_length [OF after_click_phase [OF this, of Load_more]] g show ?thesis
      by simp
  qed
qed

lemma next_page_strategy_grows:
  assumes "next_page_strategy v ops cfg prev s = Some (c, s')"
  shows "length (log s) < length (log s')"
proof -
  obtain k s1 where k: "click_first ops next_selectors s = (k, s1)"
    by (cases "click_first ops next_selectors s")
  from click_first_grows [OF k] have g: "length (log s) < length (log s1)"
    by (simp add: next_selectors_def)
  show ?thesis
  proof (cases "k = Inr True")
    case False
    with assms k have "s' = s1"
      by (auto simp: next_page_strategy_def split: sum.splits bool.splits)
    with g show ?thesis by simp
  next
    case True
    obtain w s2 where w: "perform (wait_for_load_state ops (timeout cfg))
        (Wait_for_load_state (timeout cfg)) s1 = (w, s2)"
      by (cases "perform (wait_for_load_state ops (timeout cfg)) (Wait_for_load_state (timeout cfg)) s1")
    from perform_emits [OF w] have g2: "length (log s1) \<le> length (log s2)"
      by (auto simp: emits_def)
    from True assms k w have "after_click v ops prev s2 = Some (c, s')"
      by (simp add: next_page_strategy_def)
    from phase_run_length [OF after_click_phase [OF this, of Next_page]] g g2 show ?thesis
      by simp
  qed
qed

lemma attempt_phases:
  assumes "attempt v ops cfg s = Some (c, s')"
  shows "\<exists>r a b d. emits s s' (Pbar_update # Locator_count r # a @ b @ d) \<and>
           list_all (belongs Load_more) a \<and> list_all (belongs Next_page) b \<and>
           list_all (belongs Scroll) d \<and> scroll_steps d \<le> 10 \<and> a \<noteq> [] \<and>
           (if extracted a then b = [] \<and> d = []
            else b \<noteq> [] \<and> (if extracted b then d = [] else d \<noteq> [])) \<and>
           c = extracted (a @ b @ d)"
proof -
  have e0: "emits s (pbar_update s) [Pbar_update]"
    by (simp add: emits_def pbar_update_def)
  obtain prev s0 where pc: "products_count ops (pbar_update s) = (prev, s0)"
    by (cases "products_count ops (pbar_update s)")
  from products_count_emits [OF pc] obtain r where "emits (pbar_update s) s0 [Locator_count r]"
    by blast
  with e0 have e1: "emits s s0 [Pbar_update, Locator_count r]"
    using emits_trans by fastforce
  from assms pc obtain c1 s1 where lm: "load_more_strategy v ops prev s0 = Some (c1, s1)"
    by (auto simp: attempt_def split: option.splits)
  from phase_run_events [OF load_more_strategy_phase [OF lm] load_more_strategy_grows [OF lm]]
  obtain a where a: "emits s0 s1 a" "list_all (belongs Load_more) a" "c1 = extracted a" "a \<noteq> []"
    by blast
  have e2: "emits s s1 (Pbar_update # Locator_count r # a)"
    using emits_trans [OF e1 a(1)] by simp
  show ?thesis
  proof (cases c1)
    case True
    with assms pc lm have "c = True" "s' = s1"
      by (simp_all add: attempt_def)
    with e2 a True show ?thesis
      by (intro exI [of _ r] exI [of _ a] exI [of _ "[]"]) simp
  next
    case no_lm: False
    with assms pc lm obtain c2 s2 where np: "next_page_strategy v ops cfg prev s1 = Some (c2, s2)"
      by (auto simp: attempt_def split: option.splits)
    from phase_run_events [OF next_page_strategy_phase [OF np] next_page_strategy_grows [OF np]]
    obtain b where b: "emits s1 s2 b" "list_all (belongs Next_page) b" "c2 = extracted b" "b \<noteq> []"
      by blast
    have e3: "emits s s2 (Pbar_update # Locator_count r # a @ b)"
      using emits_trans [OF e2 b(1)] by simp
    show ?thesis
    proof (cases c2)
      case True
      with assms pc lm no_lm np have "c = True" "s' = s2"
        by (simp_all add: attempt_def)
      with e3 a b no_lm True show ?thesis
        by (intro exI [of _ r] exI [of _ a] exI [of _ b] exI [of _ "[]"]) simp
    next
      case no_np: False
      with assms pc lm no_lm np have sc: "scroll_strategy v ops prev s2 = (c, s')"
        by (simp add: attempt_def)
      from scroll_strategy_events [OF sc] obtain d where
        d: "emits s2 s' d" "list_all (belongs Scroll) d" "c = extracted d" "scroll_steps d \<le> 10"
           "d \<noteq> []"
        by blast
      have "emits s s' (Pbar_update # Locator_count r # a @ b @ d)"
        using emits_trans [OF e3 d(1)] by simp
      with a b d no_lm no_np show ?thesis
        by (intro exI [of _ r] exI [of _ a] exI [of _ b] exI [of _ d]) simp
    qed
  qed
qed

lemma after_click_terminates:
  assumes "clock_ok ops"
  shows "\<exists>y. after_click v ops prev s = Some y"
proof -
  from wait_for_increase_terminates [OF assms, of 300 prev 15000 s]
  obtain w s1 where "wait_for_increase ops prev 15000 300 s = Some (w, s1)"
    by auto
  then show ?thesis
    by (auto simp: after_click_def split: sum.splits bool.splits prod.splits)
qed

lemma attempt_terminates:
  assumes "clock_ok ops"
  shows "\<exists>c s'. attempt v ops cfg s = Some (c, s')"
proof -
  have lm: "\<And>prev s. \<exists>y. load_more_strategy v ops prev s = Some y"
    using after_click_terminates [OF assms]
    by (auto simp: load_more_strategy_def split: sum.splits bool.splits prod.splits)
  have np: "\<And>prev s. \<exists>y. next_page_strategy v ops cfg prev s = Some y"
    using after_click_terminates [OF assms]
    by (auto simp: next_page_strategy_def split: sum.splits bool.splits prod.splits)
  obtain prev s0 where pc: "products_count ops (pbar_update s) = (prev, s0)"
    by (cases "products_count ops (pbar_update s)")
  from lm [of prev s0] obtain c1 s1 where l: "load_more_strategy v ops prev s0 = Some (c1, s1)"
    by auto
  from np [of prev s1] obtain c2 s2 where n: "next_page_strategy v ops cfg prev s1 = Some (c2, s2)"
    by auto
  show ?thesis
    using pc l n
    by (cases c1; cases c2; cases "scroll_strategy v ops prev s2") (auto simp: attempt_def)
qed

lemma attempt_updates:
  assumes "attempt v ops cfg s = Some (c, s')"
  shows "\<exists>es. emits s s' es \<and> updates es = 1 \<and> scroll_steps es \<le> 10"
proof -
  from attempt_phases [OF assms] obtain r a b d where
    e: "emits s s' (Pbar_update # Locator_count r # a @ b @ d)"
    and ph: "list_all (belongs Load_more) a" "list_all (belongs Next_page) b"
            "list_all (belongs Scroll) d" "scroll_steps d \<le> 10"
    by blast
  have "updates (Pbar_update # Locator_count r # a @ b @ d) = 1"
    using ph by (simp add: belongs_no_update)
  moreover have "scroll_steps (Pbar_update # Locator_count r # a @ b @ d) \<le> 10"
    using ph by (simp add: belongs_no_scroll)
  ultimately show ?thesis
    using e by blast
qed

lemma attempt_loop_bounded:
  assumes "clock_ok ops"
  shows "\<exists>n s' es. attempt_loop v ops cfg m a s = Some (n, s') \<and> emits s s' es \<and>
           a \<le> n \<and> n \<le> max a m \<and> int (updates es) = n - a"
  using assms
proof (induction v ops cfg m a s rule: attempt_loop.induct)
  case (1 v ops cfg m a s)
  show ?case
  proof (cases "a < m")
    case False
    then have "attempt_loop v ops cfg m a s = Some (a, s)"
      by (subst attempt_loop.simps) simp
    then show ?thesis
      using emits_refl [of s] by (intro exI [of _ a] exI [of _ s] exI [of _ "[]"]) simp
  next
    case True
    from attempt_terminates [OF 1(2)] obtain c s1 where at: "attempt v ops cfg s = Some (c, s1)"
      by blast
    from attempt_updates [OF at] obtain es1 where es1: "emits s s1 es1" "updates es1 = 1"
      by blast
    show ?thesis
    proof (cases c)
      case False
      with True at have "attempt_loop v ops cfg m a s = Some (a + 1, s1)"
        by (subst attempt_loop.simps) simp
      then show ?thesis
        using es1 True by (intro exI [of _ "a + 1"] exI [of _ s1] exI [of _ es1]) simp
    next
      case c: True
      then have ct: "c = True" by simp
      from 1(1) [OF True at refl ct 1(2)] obtain n s' es2 where
        l: "attempt_loop v ops cfg m (a + 1) s1 = Some (n, s')" "emits s1 s' es2"
           "a + 1 \<le> n" "n \<le> max (a + 1) m" "int (updates es2) = n - (a + 1)"
        by blast
      from True at c l(1) have "attempt_loop v ops cfg m a s = Some (n, s')"
        by (subst attempt_loop.simps) simp
      moreover have "emits s s' (es1 @ es2)"
        using es1(1) l(2) by (rule emits_trans)
      moreover have "int (updates (es1 @ es2)) = n - a"
        using es1(2) l(5) by simp
      ultimately show ?thesis
        using l(3,4) True by (intro exI [of _ n] exI [of _ s'] exI [of _ "es1 @ es2"]) simp
    qed
  qed
qed




lemma extract_page_products_updates:
  assumes "extract_page_products v ops i s = (x, s')"
  shows "\<exists>es. emits s s' es \<and> updates es = 0 \<and> scroll_steps es = 0"
proof -
  from extract_page_products_events [OF assms] obtain q es where
    "emits s s' (Query_selector_all q # es)" "list_all is_product_data es"
    by blast
  moreover from this have "updates es = 0"
    using product_data_events [of es Scroll] belongs_no_update [of Scroll es] by blast
  ultimately show ?thesis
    using product_data_no_scroll [of es]
    by (intro exI [of _ "Query_selector_all q # es"]) simp
qed

text \<open>
  Claim C3. When time passes as expected (\<^const>\<open>clock_ok\<close>, needed for the polling loop
  only), \<^verbatim>\<open>extract_all_products\<close> returns for every configuration and every behaviour of
  the page. If the first listing raises, no attempt is made; otherwise the number of
  iterations of the attempt loop (the final value of \<^verbatim>\<open>attempts\<close>, which is also the
  number of progress updates in the log) is at most \<^verbatim>\<open>max_load_attempts\<close> (none when that
  is not positive). Every single attempt returns as well, updates the progress bar once
  and performs at most 10 scroll steps.
\<close>

theorem extract_all_products_terminates:
  assumes "clock_ok ops"
  shows "(\<exists>res s' es. extract_all_products v ops cfg s = Some (res, s') \<and> log s' = log s @ es \<and>
            (case res of
               Inl e \<Rightarrow> updates es = 0
             | Inr n \<Rightarrow> 0 \<le> n \<and> n \<le> max 0 (max_load_attempts cfg) \<and> int (updates es) = n)) \<and>
         (\<exists>c s' es. attempt v ops cfg s = Some (c, s') \<and> log s' = log s @ es \<and>
            updates es = 1 \<and> scroll_steps es \<le> 10)"
proof
  obtain x s1 where x: "extract_page_products v ops 0 s = (x, s1)"
    by (cases "extract_page_products v ops 0 s")
  from extract_page_products_updates [OF x] obtain es0 where
    es0: "emits s s1 es0" "updates es0 = 0"
    by blast
  show "\<exists>res s' es. extract_all_products v ops cfg s = Some (res, s') \<and> log s' = log s @ es \<and>
            (case res of
               Inl e \<Rightarrow> updates es = 0
             | Inr n \<Rightarrow> 0 \<le> n \<and> n \<le> max 0 (max_load_attempts cfg) \<and> int (updates es) = n)"
  proof (cases x)
    case (Inl e)
    with x have "extract_all_products v ops cfg s = Some (Inl e, s1)"
      by (simp add: extract_all_products_def)
    with es0 show ?thesis
      unfolding emits_def by (intro exI [of _ "Inl e"] exI [of _ s1] exI [of _ es0]) simp
  next
    case (Inr u)
    from attempt_loop_bounded [OF assms, of v cfg "max_load_attempts cfg" 0 s1]
    obtain n s' es where
      l: "attempt_loop v ops cfg (max_load_attempts cfg) 0 s1 = Some (n, s')" "emits s1 s' es"
         "0 \<le> n" "n \<le> max 0 (max_load_attempts cfg)" "int (updates es) = n - 0"
      by blast
    from x Inr l(1) have "extract_all_products v ops cfg s = Some (Inr n, s')"
      by (simp add: extract_all_products_def)
    moreover have "emits s s' (es0 @ es)"
      using es0(1) l(2) by (rule emits_trans)
    ultimately show ?thesis
      using es0(2) l(3-5) unfolding emits_def
      by (intro exI [of _ "Inr n"] exI [of _ s'] exI [of _ "es0 @ es"]) simp
  qed
next
  from attempt_terminates [OF assms] obtain c s' where at: "attempt v ops cfg s = Some (c, s')"
    by blast
  from attempt_updates [OF at] obtain es where
    "emits s s' es" "updates es = 1" "scroll_steps es \<le> 10"
    by blast
  with at show "\<exists>c s' es. attempt v ops cfg s = Some (c, s') \<and> log s' = log s @ es \<and>
            updates es = 1 \<and> scroll_steps es \<le> 10"
    unfolding emits_def by blast
qed

theorem extract_all_products_terminates_witness:
  "clock_ok sim_ops \<and>
   (\<exists>res s' es. extract_all_products Original sim_ops default_config (fresh_scraper scroll_page)
        = Some (res, s') \<and> log s' = log (fresh_scraper scroll_page) @ es \<and>
      (case res of
         Inl e \<Rightarrow> updates es = 0
       | Inr n \<Rightarrow> 0 \<le> n \<and> n \<le> max 0 (max_load_attempts default_config) \<and> int (updates es) = n)) \<and>
   map_option fst (extract_all_products Original sim_ops default_config (fresh_scraper scroll_page))
     = Some (Inr 2) \<and>
   max_load_attempts default_config = 20"
proof -
  have a: "map_option fst
      (extract_all_products Original sim_ops default_config (fresh_scraper scroll_page))
     = Some (Inr 2)"
    by code_simp
  have b: "max_load_attempts default_config = 20"
    by (simp add: default_config_def)
  show ?thesis
    using extract_all_products_terminates [OF clock_ok_sim_ops, of Original default_config
        "fresh_scraper scroll_page"] a b clock_ok_sim_ops
    by blast
qed

section \<open>Which exceptions leave the traversal\<close>




section \<open>The two extractors on concrete pages\<close>

text \<open>
  Claim C4 holds for main_cli_optimized.py and fails for main_cli.py, whose
  \<^verbatim>\<open>extract_page_products\<close> only rejects a record whose URL equals that of a collected
  record: the first record without a URL is appended. On a page with one item whose
  product link cannot be resolved the original collects that record, the optimized
  extractor collects nothing.
\<close>

theorem original_keeps_record_without_url:
  "map url (products (snd (extract_page_products Original sim_ops 0 (fresh_scraper page_without_link))))
     = [None] \<and>
   map url (products (snd (extract_page_products Optimized sim_ops 0 (fresh_scraper page_without_link))))
     = []"
  by code_simp

text \<open>
  Claim C10 fails on an infinite-scroll page. The scroll loop assigns the new count to
  \<^verbatim>\<open>prev\<close>, and main_cli_optimized.py then extracts from \<^verbatim>\<open>start_index=prev\<close>, past the
  items the scroll has just materialized. With one item materialized and one more after
  a scroll, the original collects both records, the optimized extractor only the first.
\<close>

theorem optimized_skips_scrolled_items:
  "map_option (\<lambda>(r, s). (r, map name (products s)))
     (extract_all_products Original sim_ops default_config (fresh_scraper scroll_page))
     = Some (Inr 2, [Some ''Lait'', Some ''Beurre'']) \<and>
   map_option (\<lambda>(r, s). (r, map name (products s)))
     (extract_all_products Optimized sim_ops default_config (fresh_scraper scroll_page))
     = Some (Inr 2, [Some ''Lait''])"
  by code_simp

section \<open>A single-pass-only run\<close>

lemma handles_of_simps [simp]:
  "handles_of [] = []" "handles_of (e # es) = event_handle e @ handles_of es"
  "handles_of (a @ b) = handles_of a @ handles_of b"
  by (simp_all add: handles_of_def)

lemma listed_simps [simp]:
  "listed [] = []" "listed (e # es) = event_listed e @ listed es"
  "listed (a @ b) = listed a @ listed b"
  by (simp_all add: listed_def)

lemma product_data_quiet:
  "list_all is_product_data es \<Longrightarrow>
   list_all (\<lambda>e. \<not> loading_event e) es \<and> filter is_listing_call es = [] \<and> listed es = []"
proof (induction es)
  case Nil
  show ?case by simp
next
  case (Cons e es)
  then show ?case by (cases e) auto
qed

lemma quiet_no_update: "list_all (\<lambda>e. \<not> loading_event e) es \<Longrightarrow> updates es = 0"
  by (induction es) auto

lemma extract_items_optimized_handles:
  "\<exists>es. emits s (extract_items_optimized ops hs s) es \<and> list_all is_product_data es \<and>
        handles_of es = hs"
proof (induction hs arbitrary: s)
  case Nil
  show ?case using emits_refl [of s] by (intro exI [of _ "[]"]) simp
next
  case (Cons h hs)
  obtain r s1 where p: "perform (product_data ops h) (Product_data h) s = (r, s1)"
    by (cases "perform (product_data ops h) (Product_data h) s")
  from perform_emits [OF p] have e1: "emits s s1 [Product_data h r]"
    by blast
  have "\<exists>s2. extract_items_optimized ops (h # hs) s = extract_items_optimized ops hs s2 \<and>
             log s2 = log s1"
    using p by (cases r) (auto split: option.splits)
  then obtain s2 where s2: "extract_items_optimized ops (h # hs) s = extract_items_optimized ops hs s2"
    and l2: "log s2 = log s1"
    by blast
  from Cons [of s2] obtain es where
    es: "emits s2 (extract_items_optimized ops hs s2) es" "list_all is_product_data es"
        "handles_of es = hs"
    by blast
  have "emits s (extract_items_optimized ops hs s2) (Product_data h r # es)"
    using e1 es(1) l2 by (simp add: emits_def)
  then show ?case
    unfolding s2 using es(2,3) by (intro exI [of _ "Product_data h r # es"]) simp
qed

lemma single_pass_events:
  assumes "extract_page_products_optimized ops 0 s = (x, s')"
  shows "\<exists>q es. emits s s' (Query_selector_all q # es) \<and> list_all is_product_data es \<and>
           handles_of es = event_listed (Query_selector_all q) \<and> isl x = isl q"
proof -
  obtain q s1 where p: "perform (query_selector_all ops) Query_selector_all s = (q, s1)"
    by (cases "perform (query_selector_all ops) Query_selector_all s")
  from perform_emits [OF p] have e1: "emits s s1 [Query_selector_all q]"
    by blast
  show ?thesis
  proof (cases q)
    case (Inl e)
    with assms p have "x = Inl e" "s' = s1"
      by (simp_all add: extract_page_products_optimized_def)
    with e1 Inl show ?thesis
      by (intro exI [of _ q] exI [of _ "[]"]) simp
  next
    case (Inr items)
    with assms p have x: "x = Inr ()" "s' = extract_items_optimized ops items s1"
      by (simp_all add: extract_page_products_optimized_def)
    from extract_items_optimized_handles [of s1 ops items] obtain es where
      es: "emits s1 s' es" "list_all is_product_data es" "handles_of es = items"
      unfolding x(2) by blast
    have "emits s s' (Query_selector_all q # es)"
      using emits_trans [OF e1 es(1)] by simp
    with es x Inr show ?thesis
      by (intro exI [of _ q] exI [of _ es]) simp
  qed
qed

lemma handle_cookies_events:
  "\<exists>es. emits s (handle_cookies ops s) es \<and> list_all (\<lambda>e. \<not> loading_event e) es \<and>
        filter is_listing_call es = [] \<and> handles_of es = [] \<and> listed es = []"
proof -
  obtain r s1 where p: "perform (page_click ops ''#onetrust-reject-all-handler'' 3000)
        (Page_click ''#onetrust-reject-all-handler'') s = (r, s1)"
    by (cases "perform (page_click ops ''#onetrust-reject-all-handler'' 3000)
        (Page_click ''#onetrust-reject-all-handler'') s")
  from perform_emits [OF p] have e1: "emits s s1 [Page_click ''#onetrust-reject-all-handler'' r]"
    by blast
  show ?thesis
  proof (cases r)
    case (Inl e)
    with p have "handle_cookies ops s = s1"
      by (simp add: handle_cookies_def)
    with e1 show ?thesis
      by (intro exI [of _ "[Page_click ''#onetrust-reject-all-handler'' r]"]) simp
  next
    case (Inr u)
    obtain w s2 where w: "perform (wait_for_timeout ops 1000) (Wait_for_timeout 1000) s1 = (w, s2)"
      by (cases "perform (wait_for_timeout ops 1000) (Wait_for_timeout 1000) s1")
    from perform_emits [OF w] have "emits s1 s2 [Wait_for_timeout 1000 w]"
      by blast
    with e1 have "emits s s2 [Page_click ''#onetrust-reject-all-handler'' r, Wait_for_timeout 1000 w]"
      using emits_trans by fastforce
    moreover from p Inr w have "handle_cookies ops s = s2"
      by (simp add: handle_cookies_def)
    ultimately show ?thesis
      by (intro exI [of _ "[Page_click ''#onetrust-reject-all-handler'' r, Wait_for_timeout 1000 w]"])
         simp
  qed
qed

text \<open>
  Claim C9. A single-pass-only run always returns. It never enters the attempt loop:
  its log has no progress update (zero attempts), no control query, no click on a
  control, no scroll, no count and no clock reading. When the navigation succeeds it
  lists the items exactly once and extracts a record from exactly the listed items, in
  order, however many they are; when the navigation raises it lists nothing.
\<close>

theorem single_page_run_one_pass:
  "\<exists>res s' es. run ops cfg target True s = Some (res, s') \<and> log s' = log s @ es \<and>
      list_all (\<lambda>e. \<not> loading_event e) es \<and> updates es = 0 \<and>
      length (filter is_listing_call es) =
        (if isl (fst (goto ops target (timeout cfg) (page s))) then 0 else 1) \<and>
      handles_of es = listed es"
proof -
  obtain g s1 where g: "perform (goto ops target (timeout cfg)) (Goto target) s = (g, s1)"
    by (cases "perform (goto ops target (timeout cfg)) (Goto target) s")
  from perform_emits [OF g] have e1: "emits s s1 [Goto target g]"
    and g': "fst (goto ops target (timeout cfg) (page s)) = g"
    by simp_all
  show ?thesis
  proof (cases g)
    case (Inl e)
    with g have "run ops cfg target True s = Some (Inl e, s1)"
      by (simp add: run_def)
    with e1 g' Inl show ?thesis
      unfolding emits_def
      by (intro exI [of _ "Inl e"] exI [of _ s1] exI [of _ "[Goto target g]"]) simp
  next
    case (Inr u)
    from handle_cookies_events [of s1 ops] obtain ck where
      ck: "emits s1 (handle_cookies ops s1) ck" "list_all (\<lambda>e. \<not> loading_event e) ck"
          "filter is_listing_call ck = []" "handles_of ck = []" "listed ck = []"
      by blast
    obtain w s2 where w: "perform (wait_for_selector ops item_selector 10000)
        (Wait_for_selector item_selector) (handle_cookies ops s1) = (w, s2)"
      by (cases "perform (wait_for_selector ops item_selector 10000)
        (Wait_for_selector item_selector) (handle_cookies ops s1)")
    from perform_emits [OF w] have "emits (handle_cookies ops s1) s2 [Wait_for_selector item_selector w]"
      by blast
    with e1 ck(1) have e2: "emits s s2 (Goto target g # ck @ [Wait_for_selector item_selector w])"
      by (simp add: emits_def)
    obtain x s3 where x: "extract_page_products_optimized ops 0 s2 = (x, s3)"
      by (cases "extract_page_products_optimized ops 0 s2")
    from single_pass_events [OF x] obtain q ps where
      ps: "emits s2 s3 (Query_selector_all q # ps)" "list_all is_product_data ps"
          "handles_of ps = event_listed (Query_selector_all q)" "isl x = isl q"
      by blast
    note quiet = product_data_quiet [OF ps(2)]
    have e3: "emits s s3 (Goto target g # ck @ Wait_for_selector item_selector w
         # Query_selector_all q # ps)"
      using e2 ps(1) by (simp add: emits_def)
    show ?thesis
    proof (cases x)
      case failed: (Inl e)
      with g Inr w x have "run ops cfg target True s = Some (Inl e, s3)"
        by (simp add: run_def)
      with e3 g' Inr ck ps quiet show ?thesis
        unfolding emits_def
        by (intro exI [of _ "Inl e"] exI [of _ s3]
              exI [of _ "Goto target g # ck @ Wait_for_selector item_selector w
                 # Query_selector_all q # ps"])
           (simp add: quiet_no_update)
    next
      case passed: (Inr u')
      obtain b s4 where b: "perform (browser_close ops) Browser_close s3 = (b, s4)"
        by (cases "perform (browser_close ops) Browser_close s3")
      from perform_emits [OF b] have "emits s3 s4 [Browser_close b]"
        by blast
      with e3 have e4: "emits s s4 (Goto target g # ck @ Wait_for_selector item_selector w
         # Query_selector_all q # ps @ [Browser_close b])"
        by (simp add: emits_def)
      from g Inr w x passed b have "run ops cfg target True s = Some (b, s4)"
        by (simp add: run_def close_browser_def)
      with e4 g' Inr ck ps quiet show ?thesis
        unfolding emits_def
        by (intro exI [of _ b] exI [of _ s4]
              exI [of _ "Goto target g # ck @ Wait_for_selector item_selector w
                 # Query_selector_all q # ps @ [Browser_close b]"])
           (simp add: quiet_no_update)
    qed
  qed
qed

theorem single_page_run_one_pass_witness:
  "(\<exists>res s' es. run sim_ops default_config ''https://www.carrefour.fr/s?q=lait'' True
        (fresh_scraper load_more_page) = Some (res, s') \<and>
      log s' = log (fresh_scraper load_more_page) @ es \<and>
      list_all (\<lambda>e. \<not> loading_event e) es \<and> updates es = 0 \<and>
      length (filter is_listing_call es) = 1 \<and> handles_of es = listed es) \<and>
   map_option (\<lambda>(r, s). (r, map name (products s), log s))
     (run sim_ops default_config ''https://www.carrefour.fr/s?q=lait'' True
        (fresh_scraper load_more_page))
   = Some (Inr (), [Some ''Lait''],
       [Goto ''https://www.carrefour.fr/s?q=lait'' (Inr ()),
        Page_click ''#onetrust-reject-all-handler'' (Inl (Error ''Timeout 3000ms exceeded'')),
        Wait_for_selector item_selector (Inr ()),
        Query_selector_all (Inr [0]),
        Product_data 0 (Inr (item ''Lait'' (Some ''https://www.carrefour.fr/p/lait-1''))),
        Browser_close (Inr ())])"
proof -
  have a: "map_option (\<lambda>(r, s). (r, map name (products s), log s))
     (run sim_ops default_config ''https://www.carrefour.fr/s?q=lait'' True
        (fresh_scraper load_more_page))
   = Some (Inr (), [Some ''Lait''],
       [Goto ''https://www.carrefour.fr/s?q=lait'' (Inr ()),
        Page_click ''#onetrust-reject-all-handler'' (Inl (Error ''Timeout 3000ms exceeded'')),
        Wait_for_selector item_selector (Inr ()),
        Query_selector_all (Inr [0]),
        Product_data 0 (Inr (item ''Lait'' (Some ''https://www.carrefour.fr/p/lait-1''))),
        Browser_close (Inr ())])"
    by code_simp
  have b: "\<not> isl (fst (goto sim_ops ''https://www.carrefour.fr/s?q=lait'' (timeout default_config)
      (page (fresh_scraper load_more_page))))"
    by (simp add: sim_ops_def)
  show ?thesis
    using single_page_run_one_pass [of sim_ops default_config
        "''https://www.carrefour.fr/s?q=lait''" "fresh_scraper load_more_page"] a b
    by simp
qed

section \<open>The two extractors compared\<close>

lemma usable_Some: "usable p = (\<exists>u. url p = Some u \<and> u \<noteq> [])"
  by (cases "url p") (simp_all add: usable_def)

lemma list_ex_image: "list_ex (\<lambda>p. f p = y) ps = (y \<in> f ` set ps)"
  by (induction ps) auto

lemma image_filter_same:
  "(\<And>p. f p = y \<Longrightarrow> P p) \<Longrightarrow> (y \<in> f ` set (filter P ps)) = (y \<in> f ` set ps)"
  by (induction ps) auto

lemma map_filter_snoc:
  "f x = Some y \<Longrightarrow> set (List.map_filter f (xs @ [x])) = insert y (set (List.map_filter f xs))"
  by (simp add: List.map_filter_def)

lemma set_map_filter_url: "set (List.map_filter url ps) = {u. Some u \<in> url ` set ps}"
  by (induction ps) (auto simp: List.map_filter_simps split: option.splits)

lemma extract_items_optimized_usable:
  "\<exists>new. products (extract_items_optimized ops hs s) = products s @ new \<and> list_all usable new"
proof (induction hs arbitrary: s)
  case Nil
  show ?case by simp
next
  case (Cons h hs)
  obtain r s1 where p: "perform (product_data ops h) (Product_data h) s = (r, s1)"
    by (cases "perform (product_data ops h) (Product_data h) s")
  from perform_emits [OF p] have ps: "products s1 = products s"
    by blast
  have "\<exists>s2 one. extract_items_optimized ops (h # hs) s = extract_items_optimized ops hs s2 \<and>
          products s2 = products s @ one \<and> list_all usable one"
  proof (cases r)
    case (Inl e)
    with p ps show ?thesis by (intro exI [of _ s1] exI [of _ "[]"]) simp
  next
    case (Inr pd)
    show ?thesis
    proof (cases "usable pd \<and> the (url pd) \<notin> seen_urls s1")
      case True
      then obtain u where u: "url pd = Some u" "u \<noteq> []" "u \<notin> seen_urls s1"
        by (auto simp: usable_Some)
      with p Inr ps True show ?thesis
        by (intro exI [of _ "s1\<lparr>products := products s1 @ [pd], seen_urls := insert u (seen_urls s1)\<rparr>"]
              exI [of _ "[pd]"]) simp
    next
      case False
      with p Inr have "extract_items_optimized ops (h # hs) s = extract_items_optimized ops hs s1"
        by (auto simp: usable_Some split: option.splits)
      with ps show ?thesis by (intro exI [of _ s1] exI [of _ "[]"]) simp
    qed
  qed
  then obtain s2 one where
    s2: "extract_items_optimized ops (h # hs) s = extract_items_optimized ops hs s2"
        "products s2 = products s @ one" "list_all usable one"
    by blast
  from Cons [of s2] obtain new where
    "products (extract_items_optimized ops hs s2) = products s2 @ new" "list_all usable new"
    by blast
  with s2 show ?case
    by (intro exI [of _ "one @ new"]) simp
qed

text \<open>
  Beyond the claims (with C4): whatever the page answers, an extraction pass of
  main_cli_optimized.py only appends to the collected products, and every record it
  appends has a usable URL (not \<^verbatim>\<open>None\<close>, not empty).
\<close>

theorem optimized_collects_only_usable:
  "\<exists>new. products (snd (extract_page_products Optimized ops i s)) = products s @ new \<and>
         list_all usable new"
proof -
  obtain q s1 where p: "perform (query_selector_all ops) Query_selector_all s = (q, s1)"
    by (cases "perform (query_selector_all ops) Query_selector_all s")
  from perform_emits [OF p] have ps: "products s1 = products s"
    by blast
  show ?thesis
  proof (cases q)
    case (Inl e)
    with p ps show ?thesis
      by (intro exI [of _ "[]"]) (simp add: extract_page_products_optimized_def)
  next
    case (Inr items)
    with p ps show ?thesis
      using extract_items_optimized_usable [of ops "if 0 < i then drop (nat i) items else items" s1]
      by (simp add: extract_page_products_optimized_def)
  qed
qed

lemma agree_items:
  "agree so sp \<Longrightarrow> agree (extract_items_original ops hs so) (extract_items_optimized ops hs sp)"
proof (induction hs arbitrary: so sp)
  case Nil
  then show ?case by simp
next
  case (Cons h hs)
  from Cons.prems have pg: "page so = page sp" and pr: "filter usable (products so) = products sp"
    and sn: "seen_urls sp = {u. Some u \<in> url ` set (products sp)}"
    by (simp_all add: agree_def set_map_filter_url)
  obtain r so1 where po: "perform (product_data ops h) (Product_data h) so = (r, so1)"
    by (cases "perform (product_data ops h) (Product_data h) so")
  then obtain sp1 where pp: "perform (product_data ops h) (Product_data h) sp = (r, sp1)"
    and pg1: "page so1 = page sp1"
    using pg by (auto simp: perform_def split: prod.splits)
  from perform_emits [OF po] perform_emits [OF pp] have
    same: "products so1 = products so" "products sp1 = products sp" "seen_urls sp1 = seen_urls sp"
    by blast+
  have a1: "agree so1 sp1"
    using pg1 pr sn same by (simp add: agree_def set_map_filter_url)
  have "\<exists>so2 sp2. extract_items_original ops (h # hs) so = extract_items_original ops hs so2 \<and>
          extract_items_optimized ops (h # hs) sp = extract_items_optimized ops hs sp2 \<and>
          agree so2 sp2"
  proof (cases r)
    case (Inl e)
    with po pp a1 show ?thesis by (intro exI [of _ so1] exI [of _ sp1]) simp
  next
    case (Inr pd)
    show ?thesis
    proof (cases "usable pd")
      case False
      then have skip: "extract_items_optimized ops (h # hs) sp = extract_items_optimized ops hs sp1"
        using pp Inr by (auto simp: usable_Some split: option.splits)
      show ?thesis
      proof (cases "list_ex (\<lambda>p. url p = url pd) (products so1)")
        case True
        with po Inr skip a1 show ?thesis by (intro exI [of _ so1] exI [of _ sp1]) simp
      next
        case new: False
        have "agree (so1\<lparr>products := products so1 @ [pd]\<rparr>) sp1"
          using a1 False by (simp add: agree_def)
        with po Inr skip new show ?thesis
          by (intro exI [of _ "so1\<lparr>products := products so1 @ [pd]\<rparr>"] exI [of _ sp1]) simp
      qed
    next
      case True
      then obtain u where u: "url pd = Some u" "u \<noteq> []"
        by (auto simp: usable_Some)
      have known: "list_ex (\<lambda>p. url p = url pd) (products so1) = (u \<in> seen_urls sp1)"
      proof -
        have "list_ex (\<lambda>p. url p = url pd) (products so1) = (Some u \<in> url ` set (products so))"
          unfolding same u by (rule list_ex_image)
        also have "\<dots> = (Some u \<in> url ` set (filter usable (products so)))"
          using u by (intro image_filter_same [symmetric]) (simp add: usable_Some)
        finally show ?thesis
          unfolding same pr sn by simp
      qed
      show ?thesis
      proof (cases "u \<in> seen_urls sp1")
        case True
        with po pp Inr u known a1 show ?thesis by (intro exI [of _ so1] exI [of _ sp1]) simp
      next
        case False
        have "agree (so1\<lparr>products := products so1 @ [pd]\<rparr>)
                (sp1\<lparr>products := products sp1 @ [pd], seen_urls := insert u (seen_urls sp1)\<rparr>)"
          using a1 True u(1) by (simp add: agree_def map_filter_snoc)
        with po pp Inr u known False show ?thesis
          by (intro exI [of _ "so1\<lparr>products := products so1 @ [pd]\<rparr>"]
                exI [of _ "sp1\<lparr>products := products sp1 @ [pd], seen_urls := insert u (seen_urls sp1)\<rparr>"])
             simp
      qed
    qed
  qed
  then obtain so2 sp2 where
    "extract_items_original ops (h # hs) so = extract_items_original ops hs so2"
    "extract_items_optimized ops (h # hs) sp = extract_items_optimized ops hs sp2"
    "agree so2 sp2"
    by blast
  with Cons.IH [of so2 sp2] show ?case by simp
qed

text \<open>
  Beyond the claims (with C10): on a full pass (\<^verbatim>\<open>start_index = 0\<close>, as in the initial
  pass and in a single-pass run) the two extractors stay in agreement: from states that
  agree they return the same result and reach states that agree, so they collect the
  same records with a usable URL, in the same order. The two diverge only through a
  positive \<^verbatim>\<open>start_index\<close>.
\<close>

theorem full_pass_agrees:
  assumes "agree so sp"
  shows "fst (extract_page_products Original ops i so) = fst (extract_page_products Optimized ops 0 sp) \<and>
         agree (snd (extract_page_products Original ops i so))
               (snd (extract_page_products Optimized ops 0 sp))"
proof -
  from assms have pg: "page so = page sp"
    by (simp add: agree_def)
  obtain q so1 where po: "perform (query_selector_all ops) Query_selector_all so = (q, so1)"
    by (cases "perform (query_selector_all ops) Query_selector_all so")
  then obtain sp1 where pp: "perform (query_selector_all ops) Query_selector_all sp = (q, sp1)"
    and pg1: "page so1 = page sp1"
    using pg by (auto simp: perform_def split: prod.splits)
  from perform_emits [OF po] perform_emits [OF pp] have
    same: "products so1 = products so" "products sp1 = products sp" "seen_urls sp1 = seen_urls sp"
    by blast+
  have a1: "agree so1 sp1"
    using assms pg1 same by (simp add: agree_def)
  show ?thesis
  proof (cases q)
    case (Inl e)
    with po pp a1 show ?thesis
      by (simp add: extract_page_products_original_def extract_page_products_optimized_def)
  next
    case (Inr items)
    with po pp agree_items [OF a1, of ops items] show ?thesis
      by (simp add: extract_page_products_original_def extract_page_products_optimized_def)
  qed
qed

theorem full_pass_agrees_witness:
  "agree (fresh_scraper scroll_page) (fresh_scraper scroll_page) \<and>
   fst (extract_page_products Original sim_ops 0 (fresh_scraper scroll_page))
     = fst (extract_page_products Optimized sim_ops 0 (fresh_scraper scroll_page)) \<and>
   agree (snd (extract_page_products Original sim_ops 0 (fresh_scraper scroll_page)))
         (snd (extract_page_products Optimized sim_ops 0 (fresh_scraper scroll_page)))"
proof -
  have a: "agree (fresh_scraper scroll_page) (fresh_scraper scroll_page)"
    by (simp add: agree_def fresh_scraper_def List.map_filter_simps)
  from full_pass_agrees [OF a, of sim_ops 0] a show ?thesis
    by simp
qed

end
